theory Spec2Isabelle
  imports
    Complex_Main
    "HOL-Library.Word"
    "HOL-Library.Signed_Division"
    "HOL-Library.Log_Nat"
begin

section \<open>Element types and the capability concepts\<close>

text \<open>
  The templates of \<^verbatim>\<open>core_numeric\<close> are constrained by concepts over the element type.
  The fundamental types of C++ are enumerated, together with the two class types that the
  driver mentions (\<^verbatim>\<open>std::string\<close> and a plain \<^verbatim>\<open>struct X\<close>).  The type traits
  \<^verbatim>\<open>std::is_integral\<close>, \<^verbatim>\<open>std::is_floating_point\<close> and \<^verbatim>\<open>std::is_arithmetic\<close> belong to
  the standard library; they are written here as the C++ standard defines them.
\<close>

datatype cpp_type =
    T_bool | T_char | T_signed_char | T_unsigned_char
  | T_wchar | T_char8 | T_char16 | T_char32
  | T_short | T_unsigned_short | T_int | T_unsigned_int
  | T_long | T_unsigned_long | T_long_long | T_unsigned_long_long
  | T_float | T_double | T_long_double
  | T_string | T_struct

fun is_integral :: "cpp_type \<Rightarrow> bool" where
  "is_integral T_float = False"
| "is_integral T_double = False"
| "is_integral T_long_double = False"
| "is_integral T_string = False"
| "is_integral T_struct = False"
| "is_integral _ = True"

fun is_floating_point :: "cpp_type \<Rightarrow> bool" where
  "is_floating_point T_float = True"
| "is_floating_point T_double = True"
| "is_floating_point T_long_double = True"
| "is_floating_point _ = False"

definition is_arithmetic :: "cpp_type \<Rightarrow> bool" where
  "is_arithmetic T \<longleftrightarrow> is_integral T \<or> is_floating_point T"

text \<open>
  \<^verbatim>\<open>concept Comparable = is_arithmetic_v<T> && !is_same_v<T, char> &&
  !is_same_v<T, signed char> && !is_same_v<T, unsigned char>\<close>
\<close>

definition Comparable :: "cpp_type \<Rightarrow> bool" where
  "Comparable T \<longleftrightarrow>
     is_arithmetic T \<and> T \<noteq> T_char \<and> T \<noteq> T_signed_char \<and> T \<noteq> T_unsigned_char"

text \<open>
  The constraints at the call boundary: \<^verbatim>\<open>max\<close> requires
  \<^verbatim>\<open>Comparable<typename T::value_type>\<close>; the four variadic templates are declared over
  \<^verbatim>\<open>template<Comparable... Ts>\<close> (\<^verbatim>\<open>max_variadic\<close> over
  \<^verbatim>\<open>template<Comparable T, Comparable... Ts>\<close>), so every argument type must satisfy
  the concept.  A call whose constraint is false does not compile.
\<close>

definition max_accepts :: "cpp_type \<Rightarrow> bool" where
  "max_accepts value_type \<longleftrightarrow> Comparable value_type"

definition variadic_accepts :: "cpp_type list \<Rightarrow> bool" where
  "variadic_accepts Ts \<longleftrightarrow> list_all Comparable Ts"

definition max_variadic_accepts :: "cpp_type \<Rightarrow> cpp_type list \<Rightarrow> bool" where
  "max_variadic_accepts T Ts \<longleftrightarrow> Comparable T \<and> list_all Comparable Ts"

text \<open>
  The specification's wording of the exclusion, kept apart from the concept of the source:
  a \<^emph>\<open>character/text-code type\<close> is any type whose values are character codes.
\<close>

definition spec_character_type :: "cpp_type \<Rightarrow> bool" where
  "spec_character_type T \<longleftrightarrow>
     T \<in> {T_char, T_signed_char, T_unsigned_char, T_wchar, T_char8, T_char16, T_char32}"

definition spec_Comparable :: "cpp_type \<Rightarrow> bool" where
  "spec_Comparable T \<longleftrightarrow>
     (is_integral T \<or> is_floating_point T) \<and> \<not> spec_character_type T"


section \<open>Integral element types\<close>

text \<open>
  An object of an integral type of \<open>LENGTH('a)\<close> bits is an \<open>'a word\<close>; the type's
  signedness says how the bits are read.  Only \<^verbatim>\<open>int\<close> and the wider types reach the
  integral branches (for a narrower type \<^verbatim>\<open>a + b\<close> is an \<^verbatim>\<open>int\<close>, so \<^verbatim>\<open>Addable\<close>
  fails), hence no integral promotion takes place in them.
\<close>

datatype signedness = Signed | Unsigned

fun ival :: "signedness \<Rightarrow> 'a::len word \<Rightarrow> int" where
  "ival Signed w = sint w"
| "ival Unsigned w = uint w"

text \<open>
  The executions without a defined result: an integer division whose divisor is zero, the
  signed division of the least value by \<open>-1\<close>, and a read past the end of a container.
\<close>

datatype fault = DivisionByZero | DivisionOverflow | OutOfBoundsRead

text \<open>The operator \<^verbatim>\<open>/\<close> on two operands of one integral type: it truncates towards zero.\<close>

definition idiv :: "signedness \<Rightarrow> 'a::len word \<Rightarrow> 'a word \<Rightarrow> fault + 'a word" where
  "idiv sg a b =
     (if b = 0 then Inl DivisionByZero
      else if sg = Signed \<and> sint a = - (2 ^ (LENGTH('a) - 1)) \<and> b = - 1
           then Inl DivisionOverflow
      else Inr (word_of_int (ival sg a sdiv ival sg b)))"

text \<open>The operator \<^verbatim>\<open>>\<close> on two operands of one integral type.\<close>

definition igt :: "signedness \<Rightarrow> 'a::len word \<Rightarrow> 'a word \<Rightarrow> bool" where
  "igt sg a b \<longleftrightarrow> ival sg b < ival sg a"


section \<open>The type \<^verbatim>\<open>double\<close>\<close>

text \<open>
  A \<^verbatim>\<open>double\<close> is an IEEE 754 binary64 value: a finite number, an infinity or a NaN.
  A finite value is kept as the rational number it denotes; the two zeros are one value,
  since none of the functions below can tell them apart (they add, subtract, multiply,
  compare, and divide by a converted count, which is never \<open>-0.0\<close>).  Every operation
  computes the exact rational result and rounds it to the nearest binary64 value, ties to
  the even significand, which is the default rounding mode.
\<close>

datatype double = Fin rat | PInf | NInf | NaN

text \<open>The binary exponent of a positive rational: \<open>2 powi ilog2 x \<le> x < 2 powi (ilog2 x + 1)\<close>.\<close>

definition ilog2 :: "rat \<Rightarrow> int" where
  "ilog2 x = (if 1 \<le> x then bitlen \<lfloor>x\<rfloor> - 1 else - bitlen (\<lceil>1 / x\<rceil> - 1))"

text \<open>The nearest integer, ties to even.\<close>

definition rhe :: "rat \<Rightarrow> int" where
  "rhe y = (let f = \<lfloor>y\<rfloor>; r = y - of_int f
            in if r < 1 / 2 then f else if 1 / 2 < r then f + 1
               else if even f then f else f + 1)"

text \<open>
  The spacing of the binary64 values around \<open>x\<close>: 53 significant bits, and the fixed
  spacing \<open>2 powi - 1074\<close> of the subnormal range below \<open>2 powi - 1022\<close>.
\<close>

definition ulp_of :: "rat \<Rightarrow> rat" where
  "ulp_of x = 2 powi (max (ilog2 \<bar>x\<bar>) (- 1022) - 52)"

definition rnd :: "rat \<Rightarrow> double" where
  "rnd x = (if x = 0 then Fin 0
            else let r = of_int (rhe (x / ulp_of x)) * ulp_of x
                 in if 2 ^ 1024 \<le> \<bar>r\<bar> then (if 0 < x then PInf else NInf) else Fin r)"

fun dadd :: "double \<Rightarrow> double \<Rightarrow> double" where
  "dadd (Fin a) (Fin b) = rnd (a + b)"
| "dadd NaN _ = NaN"
| "dadd _ NaN = NaN"
| "dadd PInf NInf = NaN"
| "dadd NInf PInf = NaN"
| "dadd PInf _ = PInf"
| "dadd NInf _ = NInf"
| "dadd _ PInf = PInf"
| "dadd _ NInf = NInf"

fun dsub :: "double \<Rightarrow> double \<Rightarrow> double" where
  "dsub (Fin a) (Fin b) = rnd (a - b)"
| "dsub NaN _ = NaN"
| "dsub _ NaN = NaN"
| "dsub PInf PInf = NaN"
| "dsub NInf NInf = NaN"
| "dsub PInf _ = PInf"
| "dsub NInf _ = NInf"
| "dsub _ PInf = NInf"
| "dsub _ NInf = PInf"

fun dmul :: "double \<Rightarrow> double \<Rightarrow> double" where
  "dmul (Fin a) (Fin b) = rnd (a * b)"
| "dmul NaN _ = NaN"
| "dmul _ NaN = NaN"
| "dmul (Fin a) PInf = (if a = 0 then NaN else if 0 < a then PInf else NInf)"
| "dmul (Fin a) NInf = (if a = 0 then NaN else if 0 < a then NInf else PInf)"
| "dmul PInf (Fin b) = (if b = 0 then NaN else if 0 < b then PInf else NInf)"
| "dmul NInf (Fin b) = (if b = 0 then NaN else if 0 < b then NInf else PInf)"
| "dmul PInf PInf = PInf"
| "dmul PInf NInf = NInf"
| "dmul NInf PInf = NInf"
| "dmul NInf NInf = PInf"

text \<open>A zero divisor is \<open>+0.0\<close>: every divisor below is a count converted to \<^verbatim>\<open>double\<close>.\<close>

fun ddiv :: "double \<Rightarrow> double \<Rightarrow> double" where
  "ddiv (Fin a) (Fin b) =
     (if b = 0 then (if a = 0 then NaN else if 0 < a then PInf else NInf) else rnd (a / b))"
| "ddiv NaN _ = NaN"
| "ddiv _ NaN = NaN"
| "ddiv (Fin a) PInf = Fin 0"
| "ddiv (Fin a) NInf = Fin 0"
| "ddiv PInf (Fin b) = (if 0 \<le> b then PInf else NInf)"
| "ddiv NInf (Fin b) = (if 0 \<le> b then NInf else PInf)"
| "ddiv PInf PInf = NaN"
| "ddiv PInf NInf = NaN"
| "ddiv NInf PInf = NaN"
| "ddiv NInf NInf = NaN"

instantiation double :: "{zero,plus,minus,times}"
begin

definition zero_double :: double where
  "zero_double = Fin 0"

definition plus_double :: "double \<Rightarrow> double \<Rightarrow> double" where
  "plus_double = dadd"

definition minus_double :: "double \<Rightarrow> double \<Rightarrow> double" where
  "minus_double = dsub"

definition times_double :: "double \<Rightarrow> double \<Rightarrow> double" where
  "times_double = dmul"

instance ..

end

text \<open>The comparisons \<^verbatim>\<open>>\<close>, \<^verbatim>\<open>==\<close> and \<^verbatim>\<open>>=\<close>: each is false when an operand is a NaN.\<close>

fun dgt :: "double \<Rightarrow> double \<Rightarrow> bool" where
  "dgt (Fin a) (Fin b) \<longleftrightarrow> b < a"
| "dgt NaN _ \<longleftrightarrow> False"
| "dgt _ NaN \<longleftrightarrow> False"
| "dgt PInf PInf \<longleftrightarrow> False"
| "dgt PInf _ \<longleftrightarrow> True"
| "dgt NInf _ \<longleftrightarrow> False"
| "dgt (Fin a) PInf \<longleftrightarrow> False"
| "dgt (Fin a) NInf \<longleftrightarrow> True"

definition deq :: "double \<Rightarrow> double \<Rightarrow> bool" where
  "deq a b \<longleftrightarrow> a \<noteq> NaN \<and> a = b"

definition dge :: "double \<Rightarrow> double \<Rightarrow> bool" where
  "dge a b \<longleftrightarrow> dgt a b \<or> deq a b"

text \<open>
  Two bounds used in the proofs about \<^verbatim>\<open>variance\<close>: a \<^verbatim>\<open>double\<close> that is not a NaN and
  is at least \<open>L\<close>, and one that is not a NaN and whose magnitude is at least \<open>L\<close>.
\<close>

fun at_least :: "rat \<Rightarrow> double \<Rightarrow> bool" where
  "at_least L (Fin r) \<longleftrightarrow> L \<le> r"
| "at_least L PInf \<longleftrightarrow> True"
| "at_least L NInf \<longleftrightarrow> False"
| "at_least L NaN \<longleftrightarrow> False"

fun mag_at_least :: "rat \<Rightarrow> double \<Rightarrow> bool" where
  "mag_at_least L (Fin r) \<longleftrightarrow> L \<le> \<bar>r\<bar>"
| "mag_at_least L PInf \<longleftrightarrow> True"
| "mag_at_least L NInf \<longleftrightarrow> True"
| "mag_at_least L NaN \<longleftrightarrow> False"

text \<open>A finite \<^verbatim>\<open>double\<close>: neither an infinity nor a NaN.\<close>

fun is_finite :: "double \<Rightarrow> bool" where
  "is_finite (Fin r) \<longleftrightarrow> True"
| "is_finite _ \<longleftrightarrow> False"

text \<open>
  \<^verbatim>\<open>static_cast<double>\<close> of an integer and the implicit conversion of a
  \<^verbatim>\<open>std::size_t\<close> count round like every other operation.
\<close>

definition d_of_int :: "int \<Rightarrow> double" where
  "d_of_int i = rnd (of_int i)"

definition d_of_nat :: "nat \<Rightarrow> double" where
  "d_of_nat n = rnd (of_nat n)"

text \<open>An integer that \<^verbatim>\<open>static_cast<double>\<close> converts without rounding.\<close>

definition representable :: "int \<Rightarrow> bool" where
  "representable i \<longleftrightarrow> d_of_int i = Fin (of_int i)"


section \<open>Collection reductions\<close>

text \<open>
  \<^verbatim>\<open>Q result{}; for (const auto &elem : container) result += elem; return result;\<close>
  The loop is written for any element type with an addition and a value-initialised zero.
  On words the addition wraps around; a signed overflow, which C++ leaves undefined, is taken
  as the two's complement result.
\<close>

fun sum_loop :: "'a::plus \<Rightarrow> 'a list \<Rightarrow> 'a" where
  "sum_loop result [] = result"
| "sum_loop result (elem # rest) = sum_loop (result + elem) rest"

definition sum_cn :: "'a::{zero,plus} list \<Rightarrow> 'a" where
  "sum_cn container = sum_loop 0 container"

text \<open>
  An execution of that loop over an integral type in which no addition overflows: every
  \<^verbatim>\<open>result += elem\<close> yields the sum of the two integers.  For a signed type these are
  the executions that C++ defines.
\<close>

fun no_overflow_loop :: "signedness \<Rightarrow> 'a::len word \<Rightarrow> 'a word list \<Rightarrow> bool" where
  "no_overflow_loop sg result [] \<longleftrightarrow> True"
| "no_overflow_loop sg result (elem # rest) \<longleftrightarrow>
     ival sg (result + elem) = ival sg result + ival sg elem
     \<and> no_overflow_loop sg (result + elem) rest"

definition no_overflow :: "signedness \<Rightarrow> 'a::len word list \<Rightarrow> bool" where
  "no_overflow sg container \<longleftrightarrow> no_overflow_loop sg 0 container"

text \<open>
  The integral branch of \<^verbatim>\<open>mean\<close>:
  \<^verbatim>\<open>return sum(container) / static_cast<Q>(container.size());\<close>
  The cast reduces the count modulo \<open>2 ^ LENGTH('a)\<close>.
\<close>

definition mean_integral :: "signedness \<Rightarrow> 'a::len word list \<Rightarrow> fault + 'a word" where
  "mean_integral sg container =
     idiv sg (sum_cn container) (word_of_nat (length container))"


text \<open>
  The floating branch of \<^verbatim>\<open>mean\<close>:
  \<^verbatim>\<open>double s = 0.0; for (const auto& x : container) s += static_cast<double>(x);
  return s / static_cast<double>(container.size());\<close>
  The elements are \<^verbatim>\<open>double\<close>s, for which the cast is the identity (a \<^verbatim>\<open>float\<close> widens
  exactly, so a \<^verbatim>\<open>float\<close> container is a container of those \<^verbatim>\<open>double\<close>s).
\<close>

definition mean_floating :: "double list \<Rightarrow> double" where
  "mean_floating container = ddiv (sum_loop 0 container) (d_of_nat (length container))"

text \<open>
  The second loop of \<^verbatim>\<open>variance\<close>, the same in both branches:
  \<^verbatim>\<open>for (const auto& x : container) { double d = static_cast<double>(x) - mu; acc += d * d; }\<close>
\<close>

fun sqdev_loop :: "('a \<Rightarrow> double) \<Rightarrow> double \<Rightarrow> double \<Rightarrow> 'a list \<Rightarrow> double" where
  "sqdev_loop cast mu acc [] = acc"
| "sqdev_loop cast mu acc (x # rest) =
     (let d = cast x - mu in sqdev_loop cast mu (acc + d * d) rest)"

text \<open>
  The integral branch of \<^verbatim>\<open>variance\<close>:
  \<^verbatim>\<open>double mu = static_cast<double>(sum(container)) / container.size();\<close>
  then the loop from \<^verbatim>\<open>acc = 0.0\<close> and
  \<^verbatim>\<open>return acc / static_cast<double>(container.size());\<close>
\<close>

definition variance_integral :: "signedness \<Rightarrow> 'a::len word list \<Rightarrow> double" where
  "variance_integral sg container =
     (let mu = ddiv (d_of_int (ival sg (sum_cn container))) (d_of_nat (length container));
          acc = sqdev_loop (\<lambda>x. d_of_int (ival sg x)) mu 0 container
      in ddiv acc (d_of_nat (length container)))"

text \<open>
  The floating branch:
  \<^verbatim>\<open>double mu = 0.0; for (const auto& x : container) mu += static_cast<double>(x);
  mu /= static_cast<double>(container.size());\<close> and then as above.
\<close>

definition variance_floating :: "double list \<Rightarrow> double" where
  "variance_floating container =
     (let mu = ddiv (sum_loop 0 container) (d_of_nat (length container));
          acc = sqdev_loop (\<lambda>x. x) mu 0 container
      in ddiv acc (d_of_nat (length container)))"

text \<open>
  The integers \<open>v # vs\<close> added one after the other to the integer \<open>a\<close>: every element
  and every partial sum converts to \<^verbatim>\<open>double\<close> without rounding, so that the first loop of
  the floating branch, run on the converted elements, adds without rounding.
\<close>

fun exact_sums :: "int \<Rightarrow> int list \<Rightarrow> bool" where
  "exact_sums a [] \<longleftrightarrow> True"
| "exact_sums a (v # vs) \<longleftrightarrow>
     representable v \<and> representable (a + v) \<and> exact_sums (a + v) vs"

text \<open>
  \<^verbatim>\<open>Q result = container[0]; for (const auto &elem : container) if (elem > result)
  result = elem; return result;\<close>
  The comparison is the element type's \<^verbatim>\<open>>\<close>: \<open>igt sg\<close> on an integral type, \<open>dgt\<close> on
  \<^verbatim>\<open>double\<close>.  The loop runs over the whole container, the first element included.
  \<^verbatim>\<open>container[0]\<close> on an empty container reads past its end.
\<close>

fun max_loop :: "('a \<Rightarrow> 'a \<Rightarrow> bool) \<Rightarrow> 'a \<Rightarrow> 'a list \<Rightarrow> 'a" where
  "max_loop gt result [] = result"
| "max_loop gt result (elem # rest) =
     max_loop gt (if gt elem result then elem else result) rest"

definition max_cn :: "('a \<Rightarrow> 'a \<Rightarrow> bool) \<Rightarrow> 'a list \<Rightarrow> fault + 'a" where
  "max_cn gt container =
     (case container of
        [] \<Rightarrow> Inl OutOfBoundsRead
      | first # _ \<Rightarrow> Inr (max_loop gt first container))"

text \<open>
  \<^verbatim>\<open>R result{}; for (const auto& x : container) result += func(x); return result;\<close>
  where \<^verbatim>\<open>R\<close> is the result type of \<^verbatim>\<open>func\<close>.
\<close>

fun transform_loop :: "('a \<Rightarrow> 'r::plus) \<Rightarrow> 'r \<Rightarrow> 'a list \<Rightarrow> 'r" where
  "transform_loop func result [] = result"
| "transform_loop func result (x # rest) = transform_loop func (result + func x) rest"

definition transform_reduce :: "'a list \<Rightarrow> ('a \<Rightarrow> 'r::{zero,plus}) \<Rightarrow> 'r" where
  "transform_reduce container func = transform_loop func 0 container"


section \<open>Variadic reductions\<close>

text \<open>
  The arguments of a variadic call may differ in type.  The argument types modelled are
  \<^verbatim>\<open>bool\<close>, \<^verbatim>\<open>int\<close>, \<^verbatim>\<open>unsigned\<close>, \<^verbatim>\<open>long long\<close>, \<^verbatim>\<open>unsigned long long\<close> and
  \<^verbatim>\<open>double\<close>; \<open>widen\<close> is \<^verbatim>\<open>static_cast<double>\<close>.
\<close>

datatype arg =
    A_bool bool
  | A_int "32 word"
  | A_unsigned "32 word"
  | A_long_long "64 word"
  | A_unsigned_long_long "64 word"
  | A_double double

fun widen :: "arg \<Rightarrow> double" where
  "widen (A_bool b) = d_of_int (if b then 1 else 0)"
| "widen (A_int w) = d_of_int (sint w)"
| "widen (A_unsigned w) = d_of_int (uint w)"
| "widen (A_long_long w) = d_of_int (sint w)"
| "widen (A_unsigned_long_long w) = d_of_int (uint w)"
| "widen (A_double d) = d"

text \<open>
  The unary right fold \<^verbatim>\<open>(e + ...)\<close> over a pack: \<open>e1 + (e2 + (... + eN))\<close>.  Over an
  empty pack it is ill-formed, so a call without arguments does not compile (\<open>None\<close>).
\<close>

fun fold_plus :: "double list \<Rightarrow> double option" where
  "fold_plus [] = None"
| "fold_plus [e] = Some e"
| "fold_plus (e # e' # es) = map_option (\<lambda>s. e + s) (fold_plus (e' # es))"

text \<open>
  \<^verbatim>\<open>constexpr std::size_t n = sizeof...(xs);
  return (static_cast<double>(xs) + ...) / n;\<close>
\<close>

definition mean_variadic :: "arg list \<Rightarrow> double option" where
  "mean_variadic xs =
     map_option (\<lambda>s. ddiv s (d_of_nat (length xs))) (fold_plus (map widen xs))"

text \<open>
  \<^verbatim>\<open>double mean = (static_cast<double>(xs) + ...) / n;
  return (((static_cast<double>(xs) - mean) * (static_cast<double>(xs) - mean)) + ...) / n;\<close>
\<close>

definition variance_variadic :: "arg list \<Rightarrow> double option" where
  "variance_variadic xs =
     (case fold_plus (map widen xs) of
        None \<Rightarrow> None
      | Some s \<Rightarrow>
          (let mean = ddiv s (d_of_nat (length xs))
           in map_option (\<lambda>q. ddiv q (d_of_nat (length xs)))
                (fold_plus (map (\<lambda>x. (widen x - mean) * (widen x - mean)) xs))))"


section \<open>The specification's formulas\<close>

text \<open>
  The population variance as the specification words it, in \<^verbatim>\<open>double\<close>: the mean of the
  values is their sum divided by the count; the variance is the sum of the squared
  deviations from that mean, taken in sequence order, divided by the full count.
\<close>

definition population_variance :: "double list \<Rightarrow> double" where
  "population_variance values =
     (let count = d_of_nat (length values);
          mean = ddiv (foldl (+) 0 values) count
      in ddiv (foldl (+) 0 (map (\<lambda>v. (v - mean) * (v - mean)) values)) count)"

text \<open>
  The same over integers: the mean is the sum of the integers, as a floating value, divided
  by the count and not truncated; the deviations are those of the converted integers.
\<close>

definition population_variance_of_ints :: "int list \<Rightarrow> double" where
  "population_variance_of_ints values =
     (let count = d_of_nat (length values);
          mean = ddiv (d_of_int (sum_list values)) count
      in ddiv (foldl (+) 0 (map (\<lambda>v. (d_of_int v - mean) * (d_of_int v - mean)) values))
           count)"


section \<open>The capability concepts: properties\<close>

lemma Comparable_cases:
  "Comparable T \<longleftrightarrow>
     T \<in> {T_bool, T_wchar, T_char8, T_char16, T_char32, T_short, T_unsigned_short, T_int,
          T_unsigned_int, T_long, T_unsigned_long, T_long_long, T_unsigned_long_long,
          T_float, T_double, T_long_double}"
  by (cases T) (simp_all add: Comparable_def is_arithmetic_def)

text \<open>
  C3, as stated: \<open>Comparable\<close> would hold exactly for the numeric types that are not
  character types.  The concept of the source accepts \<^verbatim>\<open>char32_t\<close>, an integral type
  whose values are character codes, and so do \<^verbatim>\<open>max\<close> and the variadic templates.
\<close>

theorem Comparable_char32_counterexample:
  "\<not> (Comparable T_char32 \<longleftrightarrow> spec_Comparable T_char32)
   \<and> spec_character_type T_char32 \<and> max_accepts T_char32
   \<and> variadic_accepts [T_char32, T_char32]
   \<and> max_variadic_accepts T_char32 [T_char32]"
  by (simp add: Comparable_def spec_Comparable_def spec_character_type_def is_arithmetic_def
      max_accepts_def variadic_accepts_def max_variadic_accepts_def)

text \<open>
  C3, amended: \<open>Comparable\<close> holds for a type exactly when the type is integral or
  floating-point and is none of \<^verbatim>\<open>char\<close>, \<^verbatim>\<open>signed char\<close> and \<^verbatim>\<open>unsigned char\<close>.
  Of the character types it therefore rejects these three and accepts \<^verbatim>\<open>wchar_t\<close>,
  \<^verbatim>\<open>char8_t\<close>, \<^verbatim>\<open>char16_t\<close> and \<^verbatim>\<open>char32_t\<close>; non-arithmetic types are rejected.
  \<^verbatim>\<open>max\<close> is instantiated exactly for the element types that satisfy it, and a variadic
  form exactly when every argument type satisfies it.
\<close>

theorem Comparable_narrow_char_excluded:
  "(Comparable T \<longleftrightarrow>
      (is_integral T \<or> is_floating_point T) \<and> T \<notin> {T_char, T_signed_char, T_unsigned_char})
   \<and> (Comparable T \<and> spec_character_type T \<longleftrightarrow> T \<in> {T_wchar, T_char8, T_char16, T_char32})
   \<and> (spec_Comparable T \<longleftrightarrow> Comparable T \<and> T \<notin> {T_wchar, T_char8, T_char16, T_char32})
   \<and> (max_accepts T \<longleftrightarrow> Comparable T)
   \<and> (variadic_accepts Ts \<longleftrightarrow> (\<forall>U \<in> set Ts. Comparable U))
   \<and> (max_variadic_accepts T Ts \<longleftrightarrow> (\<forall>U \<in> set (T # Ts). Comparable U))"
  by (cases T)
    (simp_all add: Comparable_def spec_Comparable_def spec_character_type_def is_arithmetic_def
      max_accepts_def variadic_accepts_def max_variadic_accepts_def list_all_iff)

theorem Comparable_narrow_char_excluded_witness:
  "variadic_accepts [T_int, T_double] \<and> \<not> variadic_accepts [T_char, T_char]
   \<and> max_variadic_accepts T_int [T_double, T_int] \<and> \<not> max_accepts T_string
   \<and> \<not> Comparable T_unsigned_char \<and> Comparable T_wchar"
  using Comparable_narrow_char_excluded [of T_int "[T_int, T_double]"]
    Comparable_narrow_char_excluded [of T_char "[T_char, T_char]"]
    Comparable_narrow_char_excluded [of T_int "[T_double, T_int]"]
    Comparable_narrow_char_excluded [of T_string "[]"]
    Comparable_narrow_char_excluded [of T_unsigned_char "[]"]
    Comparable_narrow_char_excluded [of T_wchar "[]"]
    Comparable_narrow_char_excluded [of T_double "[]"]
  by (simp add: spec_character_type_def)


section \<open>The sum loop and the integral mean\<close>

lemma sum_loop_foldl: "sum_loop r xs = foldl (+) r xs"
  by (induction xs arbitrary: r) simp_all

lemma sum_loop_replicate_zero: "sum_loop (r::'a::monoid_add) (replicate n 0) = r"
  by (induction n) simp_all

lemma sdiv_pos_between:
  fixes a n :: int
  assumes "0 < n"
  shows "min a 0 \<le> a sdiv n \<and> a sdiv n \<le> max a 0"
proof (cases "0 \<le> a")
  case True
  then have "a sdiv n = a div n"
    using assms by (simp add: signed_divide_int_def sgn_if)
  moreover have "0 \<le> a div n" using True assms by (simp add: pos_imp_zdiv_nonneg_iff)
  moreover have "a div n \<le> a" using True assms
    by (metis div_by_1 int_one_le_iff_zero_less zdiv_mono2 zero_less_one)
  ultimately show ?thesis using True by simp
next
  case False
  then have eq: "a sdiv n = - ((- a) div n)"
    using assms by (simp add: signed_divide_int_def sgn_if)
  have "0 \<le> (- a) div n" using False assms by (simp add: pos_imp_zdiv_nonneg_iff)
  moreover have "(- a) div n \<le> - a" using False assms
    by (metis div_by_1 int_one_le_iff_zero_less zdiv_mono2 zero_less_one neg_0_le_iff_le not_le order_less_imp_le)
  ultimately show ?thesis using False eq by simp
qed

lemma idiv_count:
  fixes a :: "'a::len word"
  assumes n: "0 < n" and rep: "ival sg (word_of_nat n :: 'a word) = int n"
  shows "\<exists>m. idiv sg a (word_of_nat n) = Inr m \<and> ival sg m = ival sg a sdiv int n"
proof -
  let ?c = "word_of_nat n :: 'a word"
  let ?k = "ival sg a sdiv int n"
  have c0: "?c \<noteq> 0"
  proof
    assume "?c = 0"
    then have "ival sg ?c = 0" by (cases sg) simp_all
    with rep n show False by simp
  qed
  have c1: "sg = Signed \<Longrightarrow> ?c \<noteq> - 1"
  proof
    assume "sg = Signed" "?c = - 1"
    then have "ival sg ?c = - 1" by simp
    with rep n show False by simp
  qed
  have between: "min (ival sg a) 0 \<le> ?k \<and> ?k \<le> max (ival sg a) 0"
    using sdiv_pos_between [of "int n" "ival sg a"] n by simp
  have val: "ival sg (word_of_int ?k :: 'a word) = ?k"
  proof (cases sg)
    case Signed
    have "- (2 ^ (LENGTH('a) - 1)) \<le> sint a" "sint a < 2 ^ (LENGTH('a) - 1)"
      using sint_ge [of a] sint_lt [of a] by simp_all
    with between Signed have "- (2 ^ (LENGTH('a) - 1)) \<le> ?k" "?k < 2 ^ (LENGTH('a) - 1)"
      by auto
    then have "signed_take_bit (LENGTH('a) - 1) ?k = ?k"
      by (rule signed_take_bit_int_eq_self)
    with Signed show ?thesis by (simp add: sint_sbintrunc')
  next
    case Unsigned
    from between Unsigned have "0 \<le> ?k" "?k \<le> uint a"
      by auto
    then have "0 \<le> ?k" "?k < 2 ^ LENGTH('a)"
      using uint_lt2p [of a] by linarith+
    then have "take_bit LENGTH('a) ?k = ?k"
      by (simp add: take_bit_int_eq_self)
    with Unsigned show ?thesis by (simp add: uint_word_of_int_eq)
  qed
  have "idiv sg a ?c = Inr (word_of_int ?k)"
    using c0 c1 rep by (auto simp add: idiv_def)
  with val show ?thesis by blast
qed

text \<open>
  C1, amended: for every non-empty sequence of an integral element type \<open>T\<close> whose
  count is representable in \<open>T\<close> (the cast \<^verbatim>\<open>static_cast<Q>(container.size())\<close> keeps
  its value), \<^verbatim>\<open>mean\<close> returns a value, and that value is \<open>sum(seq) / count\<close> with
  the quotient truncated towards zero (\<open>sdiv\<close> on the integers), the sum being the one
  that \<^verbatim>\<open>sum\<close> computes in \<open>T\<close>.  In particular the mean of \<open>[1, 2, 3, 4]\<close> over
  \<^verbatim>\<open>int\<close> is \<open>2\<close>.
\<close>

theorem mean_integral_truncating:
  fixes container :: "'a::len word list"
  assumes "container \<noteq> []"
    and "ival sg (word_of_nat (length container) :: 'a word) = int (length container)"
  shows "(\<exists>m. mean_integral sg container = Inr m
            \<and> ival sg m = ival sg (sum_cn container) sdiv int (length container))
         \<and> mean_integral Signed [1, 2, 3, 4 :: 32 word] = Inr 2"
proof -
  have "mean_integral Signed [1, 2, 3, 4 :: 32 word] = Inr 2"
    by (simp add: mean_integral_def sum_cn_def idiv_def signed_divide_int_def)
  then show ?thesis
    using assms idiv_count [of "length container" sg "sum_cn container"]
    by (simp add: mean_integral_def)
qed

theorem mean_integral_truncating_witness:
  "[- 7, 0 :: 32 word] \<noteq> []
   \<and> ival Signed (word_of_nat (length [- 7, 0 :: 32 word]) :: 32 word) = 2
   \<and> mean_integral Signed [- 7, 0 :: 32 word] = Inr (- 3)"
proof -
  obtain m :: "32 word" where m: "mean_integral Signed [- 7, 0] = Inr m"
    and "ival Signed m
      = ival Signed (sum_cn [- 7, 0 :: 32 word]) sdiv int (length [- 7, 0 :: 32 word])"
    using mean_integral_truncating [of "[- 7, 0 :: 32 word]" Signed] by auto
  then have "sint m = - 3"
    by (simp add: sum_cn_def signed_divide_int_def)
  then have "word_of_int (sint m) = (word_of_int (- 3) :: 32 word)"
    by simp
  then have "m = - 3" by simp
  with m show ?thesis by simp
qed

text \<open>
  C1, as stated, for every non-empty sequence: a \<^verbatim>\<open>std::vector<int>\<close> of
  \<open>2147483649\<close> elements, the first \<open>2147483647\<close> and the others \<open>0\<close>.  Its sum is
  \<open>2147483647\<close> without any overflow and \<open>sum / count\<close> truncates to \<open>0\<close>, but the count
  cast to \<^verbatim>\<open>int\<close> is \<open>-2147483647\<close> and \<^verbatim>\<open>mean\<close> returns \<open>-1\<close>.  With
  \<open>4294967296\<close> elements the count casts to \<open>0\<close> and \<^verbatim>\<open>mean\<close> divides by zero: it
  returns nothing.
\<close>

theorem mean_integral_count_counterexample:
  "mean_integral Signed (2147483647 # replicate 2147483648 (0 :: 32 word)) = Inr (- 1)
   \<and> ival Signed (sum_cn (2147483647 # replicate 2147483648 (0 :: 32 word)))
       sdiv int (length (2147483647 # replicate 2147483648 (0 :: 32 word))) = 0
   \<and> replicate 4294967296 (0 :: 32 word) \<noteq> []
   \<and> mean_integral Signed (replicate 4294967296 (0 :: 32 word)) = Inl DivisionByZero"
proof -
  have "mean_integral Signed (2147483647 # replicate 2147483648 (0 :: 32 word)) = Inr (- 1)
   \<and> ival Signed (sum_cn (2147483647 # replicate 2147483648 (0 :: 32 word)))
       sdiv int (length (2147483647 # replicate 2147483648 (0 :: 32 word))) = 0"
    apply (simp only: mean_integral_def sum_cn_def sum_loop.simps sum_loop_replicate_zero
        length_Cons length_replicate)
    apply (simp add: idiv_def signed_divide_int_def)
    done
  moreover have "replicate 4294967296 (0 :: 32 word) \<noteq> []"
    by (simp only: replicate_empty)
  moreover have "mean_integral Signed (replicate 4294967296 (0 :: 32 word)) = Inl DivisionByZero"
    apply (simp only: mean_integral_def length_replicate)
    apply (simp add: idiv_def)
    done
  ultimately show ?thesis by blast
qed


section \<open>Rounding to \<^verbatim>\<open>double\<close>\<close>

subsection \<open>The binary exponent\<close>

lemma two_powi_pos: "0 < (2::rat) powi k"
  by simp

lemma two_powi_mono: "j \<le> k \<Longrightarrow> (2::rat) powi j \<le> 2 powi k"
  by (rule power_int_increasing) simp_all

lemma two_powi_strict_mono: "j < k \<Longrightarrow> (2::rat) powi j < 2 powi k"
  by (rule power_int_strict_increasing) simp_all

lemma two_powi_add: "(2::rat) powi (j + k) = 2 powi j * 2 powi k"
  by (simp add: power_int_add)

lemma two_powi_diff: "(2::rat) powi (j - k) = 2 powi j / 2 powi k"
  by (simp add: power_int_diff)

lemma ilog2_bounds:
  assumes "0 < x"
  shows "2 powi ilog2 x \<le> x \<and> x < 2 powi (ilog2 x + 1)"
proof (cases "1 \<le> x")
  case True
  define n where "n = \<lfloor>x\<rfloor>"
  define b where "b = bitlen n"
  have n1: "1 \<le> n" using True by (simp add: n_def le_floor_iff)
  then have bb: "2 ^ nat (b - 1) \<le> n" "n < 2 ^ nat b"
    using bitlen_bounds [of n] by (simp_all add: b_def)
  have b1: "1 \<le> b"
    using n1 bitlen_eq_zero_iff [of n] bitlen_nonneg [of n] by (simp add: b_def)
  have il: "ilog2 x = b - 1" using True by (simp add: ilog2_def n_def b_def)
  have "(2::rat) powi (b - 1) = 2 ^ nat (b - 1)"
    using b1 by (simp add: power_int_nonneg_exp)
  also have "\<dots> = of_int (2 ^ nat (b - 1))" by simp
  also have "\<dots> \<le> of_int n" using bb(1) by (simp only: of_int_le_iff)
  also have "\<dots> \<le> x" by (simp add: n_def)
  finally have lo: "2 powi (b - 1) \<le> x" .
  have "x < of_int n + 1" using floor_correct [of x] by (simp add: n_def)
  also have "\<dots> = of_int (n + 1)" by simp
  also have "\<dots> \<le> of_int (2 ^ nat b)" using bb(2) by (simp only: of_int_le_iff)
  also have "\<dots> = (2::rat) powi b" using b1 by (simp add: power_int_nonneg_exp)
  finally have "x < 2 powi b" .
  with lo il show ?thesis by simp
next
  case False
  define y where "y = 1 / x"
  define c where "c = \<lceil>y\<rceil>"
  define j where "j = bitlen (c - 1)"
  have y1: "1 < y" using False assms by (simp add: y_def)
  then have c2: "2 \<le> c" unfolding c_def by (simp add: le_ceiling_iff)
  then have bb: "2 ^ nat (j - 1) \<le> c - 1" "c - 1 < 2 ^ nat j"
    using bitlen_bounds [of "c - 1"] by (simp_all add: j_def)
  have j1: "1 \<le> j"
    using c2 bitlen_eq_zero_iff [of "c - 1"] bitlen_nonneg [of "c - 1"] by (simp add: j_def)
  have il: "ilog2 x = - j" using False by (simp add: ilog2_def y_def c_def j_def)
  have ypos: "0 < y" using y1 by simp
  have xy: "x = 1 / y" using assms by (simp add: y_def)
  have "y \<le> of_int c" by (simp add: c_def)
  also have "of_int c \<le> (of_int (2 ^ nat j) :: rat)" using bb(2) by (simp only: of_int_le_iff)
  also have "\<dots> = 2 powi j" using j1 by (simp add: power_int_nonneg_exp)
  finally have "y \<le> 2 powi j" .
  then have "1 / 2 powi j \<le> 1 / y" using ypos by (simp add: frac_le)
  then have lo: "2 powi (- j) \<le> x" by (simp add: xy power_int_minus_divide)
  have "(2::rat) powi (j - 1) = of_int (2 ^ nat (j - 1))" using j1 by (simp add: power_int_nonneg_exp)
  also have "\<dots> \<le> of_int (c - 1)" using bb(1) by (simp only: of_int_le_iff)
  also have "\<dots> < y" using ceiling_correct [of y] by (simp add: c_def)
  finally have "2 powi (j - 1) < y" .
  then have "1 / y < 1 / 2 powi (j - 1)" by (simp add: frac_less2)
  moreover have "1 / (2::rat) powi (j - 1) = 2 powi (- (j - 1))"
    by (simp only: power_int_minus_divide)
  ultimately have "x < 2 powi (- (j - 1))" by (simp only: xy)
  moreover have "- (j - 1) = - j + 1" by simp
  ultimately have "x < 2 powi (- j + 1)" by simp
  with lo il show ?thesis by simp
qed

lemma ilog2_unique:
  assumes "2 powi k \<le> x" "x < 2 powi (k + 1)"
  shows "ilog2 x = k"
proof -
  have x: "0 < x" using assms(1) two_powi_pos [of k] by linarith
  note b = ilog2_bounds [OF x]
  have "\<not> ilog2 x < k"
  proof
    assume "ilog2 x < k"
    then have "2 powi (ilog2 x + 1) \<le> (2::rat) powi k" by (intro two_powi_mono) simp
    with b assms show False by linarith
  qed
  moreover have "\<not> k < ilog2 x"
  proof
    assume "k < ilog2 x"
    then have "2 powi (k + 1) \<le> (2::rat) powi ilog2 x" by (intro two_powi_mono) simp
    with b assms show False by linarith
  qed
  ultimately show ?thesis by simp
qed

subsection \<open>Values that round to themselves\<close>

lemma rhe_of_int [simp]: "rhe (of_int n) = n"
  by (simp add: rhe_def)

lemma ulp_of_pos: "0 < ulp_of x"
  by (simp add: ulp_of_def)

lemma ulp_of_eq:
  assumes "2 powi k \<le> \<bar>x\<bar>" "\<bar>x\<bar> < 2 powi (k + 1)"
  shows "ulp_of x = 2 powi (max k (- 1022) - 52)"
  using ilog2_unique [OF assms] by (simp add: ulp_of_def)

lemma rnd_zero [simp]: "rnd 0 = Fin 0"
  by (simp add: rnd_def)

lemma rnd_exact:
  assumes "x / ulp_of x = of_int m" "\<bar>x\<bar> < 2 ^ 1024"
  shows "rnd x = Fin x"
proof (cases "x = 0")
  case True
  then show ?thesis by simp
next
  case False
  have "rhe (x / ulp_of x) = m"
    by (simp add: assms(1))
  then have "of_int (rhe (x / ulp_of x)) * ulp_of x = (x / ulp_of x) * ulp_of x"
    by (simp add: assms(1))
  also have "\<dots> = x"
    using ulp_of_pos [of x] by simp
  finally have "of_int (rhe (x / ulp_of x)) * ulp_of x = x" .
  then show ?thesis
    using False assms(2) by (simp add: rnd_def Let_def del: power_numeral)
qed

lemma two_powi_less_imp: "(2::rat) powi j < 2 powi k \<Longrightarrow> j < k"
  using two_powi_mono [of k j] by (cases "j < k") simp_all

lemma rnd_exact_dyadic:
  assumes xm: "x * 2 ^ j = of_int m" and m: "\<bar>m\<bar> < 2 ^ 53" and j: "j \<le> 1074"
  shows "rnd x = Fin x"
proof (cases "x = 0")
  case True
  then show ?thesis by simp
next
  case False
  define e where "e = ilog2 \<bar>x\<bar>"
  define E where "E = max e (- 1022) - 52"
  have "\<bar>x * 2 ^ j\<bar> = \<bar>of_int m :: rat\<bar>"
    by (simp only: xm)
  then have ax: "\<bar>x\<bar> * 2 ^ j = of_int \<bar>m\<bar>"
    by (simp add: abs_mult)
  have "of_int \<bar>m\<bar> < (of_int (2 ^ 53) :: rat)"
    using m by (simp only: of_int_less_iff)
  then have "\<bar>x\<bar> * 2 ^ j < 2 ^ 53"
    by (simp add: ax)
  then have lt: "\<bar>x\<bar> < 2 ^ 53 / 2 ^ j"
    by (simp add: pos_less_divide_eq)
  have "(2::rat) ^ 53 / 2 ^ j = 2 powi (53 - int j)"
    by (simp add: power_int_diff)
  with lt have lt': "\<bar>x\<bar> < 2 powi (53 - int j)" by simp
  have "2 powi e \<le> \<bar>x\<bar>"
    using ilog2_bounds [of "\<bar>x\<bar>"] False by (simp add: e_def)
  with lt' have "(2::rat) powi e < 2 powi (53 - int j)" by linarith
  then have "e < 53 - int j" by (rule two_powi_less_imp)
  with j have Ej: "E \<le> - int j" by (simp add: E_def)
  define d where "d = nat (- int j - E)"
  have E: "- E = int j + int d" using Ej by (simp add: d_def)
  have u: "ulp_of x = 2 powi E" by (simp add: ulp_of_def E_def e_def)
  have "x / ulp_of x = x * 2 powi (- E)"
    by (simp add: u power_int_minus_divide)
  also have "\<dots> = x * (2 ^ j * 2 ^ d)"
    by (simp only: E two_powi_add power_int_of_nat)
  also have "\<dots> = of_int m * 2 ^ d"
    using xm by simp
  also have "\<dots> = of_int (m * 2 ^ d)" by simp
  finally have int: "x / ulp_of x = of_int (m * 2 ^ d)" .
  have "\<bar>x\<bar> \<le> \<bar>x\<bar> * 2 ^ j"
    by (simp add: mult_le_cancel_left1)
  also have "\<bar>x\<bar> * 2 ^ j < 2 ^ 53" by fact
  also have "(2::rat) ^ 53 < 2 ^ 1024" by simp
  finally have "\<bar>x\<bar> < 2 ^ 1024" .
  with int show ?thesis by (rule rnd_exact)
qed

lemma rnd_of_int:
  assumes "\<bar>i\<bar> < 2 ^ 53"
  shows "rnd (of_int i) = Fin (of_int i)"
  using rnd_exact_dyadic [of "of_int i" 0 i] assms by simp

lemma d_of_int_exact: "\<bar>i\<bar> < 2 ^ 53 \<Longrightarrow> d_of_int i = Fin (of_int i)"
  by (simp add: d_of_int_def rnd_of_int)

lemma d_of_nat_exact: "n < 2 ^ 53 \<Longrightarrow> d_of_nat n = Fin (of_nat n)"
  using rnd_of_int [of "int n"] by (simp add: d_of_nat_def)

lemma rnd_small:
  assumes "of_int \<lfloor>x * 1024\<rfloor> = x * 1024" "\<bar>x\<bar> < 2 ^ 43"
  shows "rnd x = Fin x"
proof -
  have "\<bar>x * 1024\<bar> < 2 ^ 43 * 1024" using assms(2) by (simp add: abs_mult)
  then have "\<bar>(of_int \<lfloor>x * 1024\<rfloor> :: rat)\<bar> < of_int (2 ^ 53)" by (simp add: assms(1))
  then have "\<bar>\<lfloor>x * 1024\<rfloor>\<bar> < 2 ^ 53"
    by (simp only: of_int_abs [symmetric] of_int_less_iff)
  then show ?thesis
    using rnd_exact_dyadic [of x 10 "\<lfloor>x * 1024\<rfloor>"] assms(1) by simp
qed

subsection \<open>Rounding in the normal range\<close>

lemma rhe_cases: "rhe y = \<lfloor>y\<rfloor> \<or> rhe y = \<lfloor>y\<rfloor> + 1"
  by (simp add: rhe_def Let_def)

lemma rhe_ge_int:
  assumes "of_int n \<le> y"
  shows "n \<le> rhe y"
proof -
  have "n \<le> \<lfloor>y\<rfloor>" using assms by (simp add: le_floor_iff)
  then show ?thesis using rhe_cases [of y] by auto
qed

lemma rhe_le_int:
  assumes "y \<le> of_int n"
  shows "rhe y \<le> n"
proof (cases "y = of_int n")
  case True
  then show ?thesis by simp
next
  case False
  then have "y < of_int n" using assms by simp
  then have "\<lfloor>y\<rfloor> < n" by (simp add: floor_less_iff)
  then show ?thesis using rhe_cases [of y] by auto
qed

lemma rhe_abs_le:
  assumes "\<bar>y\<bar> \<le> of_int n"
  shows "\<bar>rhe y\<bar> \<le> n"
proof -
  have "y \<le> of_int n" "of_int (- n) \<le> y" using assms by (simp_all add: abs_le_iff)
  then have "rhe y \<le> n" "- n \<le> rhe y" by (simp_all only: rhe_le_int rhe_ge_int)
  then show ?thesis by simp
qed

lemma rnd_normal:
  assumes lo: "2 powi k \<le> \<bar>x\<bar>" and hi: "\<bar>x\<bar> < 2 powi (k + 1)"
    and k: "- 1022 \<le> k" "k < 1023"
  shows "rnd x = Fin (of_int (rhe (x / 2 powi (k - 52))) * 2 powi (k - 52))"
proof -
  have "0 < (2::rat) powi k" by simp
  with lo have "0 < \<bar>x\<bar>" by linarith
  then have x0: "x \<noteq> 0" by simp
  have u: "ulp_of x = 2 powi (k - 52)"
    using ulp_of_eq [OF lo hi] k by simp
  have upos: "0 < (2::rat) powi (k - 52)" by simp
  have "\<bar>x / 2 powi (k - 52)\<bar> = \<bar>x\<bar> / 2 powi (k - 52)"
    by simp
  also have "\<dots> \<le> 2 powi (k + 1) / 2 powi (k - 52)"
    using hi upos by (simp add: divide_right_mono)
  also have "\<dots> = 2 powi 53"
    by (simp only: two_powi_diff [symmetric]) simp
  also have "\<dots> = of_int (2 ^ 53)" by simp
  finally have "\<bar>rhe (x / 2 powi (k - 52))\<bar> \<le> 2 ^ 53"
    by (rule rhe_abs_le)
  then have "(of_int \<bar>rhe (x / 2 powi (k - 52))\<bar> :: rat) \<le> of_int (2 ^ 53)"
    by (simp only: of_int_le_iff)
  then have "\<bar>of_int (rhe (x / 2 powi (k - 52))) :: rat\<bar> \<le> 2 ^ 53"
    by simp
  then have "\<bar>of_int (rhe (x / 2 powi (k - 52))) * 2 powi (k - 52) :: rat\<bar> \<le> 2 ^ 53 * 2 powi (k - 52)"
    by (simp add: abs_mult mult_right_mono)
  also have "(2::rat) ^ 53 * 2 powi (k - 52) = 2 powi (53 + (k - 52))"
    by (simp only: two_powi_add) simp
  also have "\<dots> \<le> 2 powi 1023"
    using k by (intro two_powi_mono) simp
  also have "\<dots> < 2 ^ 1024" by simp
  finally have "\<not> 2 ^ 1024 \<le> \<bar>of_int (rhe (x / 2 powi (k - 52))) * 2 powi (k - 52) :: rat\<bar>"
    by simp
  then show ?thesis
    using x0 by (simp add: rnd_def u Let_def del: power_numeral)
qed

lemma floor_rat_numeral_div:
  "\<lfloor>(numeral a :: rat) / numeral b\<rfloor> = numeral a div numeral b"
  using floor_divide_of_int_eq [of "numeral a" "numeral b", where ?'a = rat] by simp

lemma floor_rat_neg_numeral_div:
  "\<lfloor>- ((numeral a :: rat) / numeral b)\<rfloor> = - numeral a div numeral b"
  using floor_divide_of_int_eq [of "- numeral a" "numeral b", where ?'a = rat] by simp

lemmas rhe_eval = rhe_def Let_def floor_rat_numeral_div floor_rat_neg_numeral_div

lemma rnd_6_5: "rnd (6 / 5) = Fin (5404319552844595 / 4503599627370496)"
  by (simp add: rnd_normal [of 0] rhe_eval)

lemma rnd_24_5: "rnd (24 / 5) = Fin (5404319552844595 / 1125899906842624)"
  by (simp add: rnd_normal [of 2] rhe_eval)

lemma rnd_31_10: "rnd (31 / 10) = Fin (6980579422424269 / 2251799813685248)"
  by (simp add: rnd_normal [of 1] rhe_eval)


subsection \<open>The subnormal range\<close>

lemma rhe_small:
  assumes "\<bar>y\<bar> < 1 / 2"
  shows "rhe y = 0"
proof (cases "0 \<le> y")
  case True
  then have "\<lfloor>y\<rfloor> = 0" using assms by (simp add: floor_eq_iff)
  then show ?thesis using assms True by (simp add: rhe_def)
next
  case False
  then have "\<lfloor>y\<rfloor> = - 1" using assms by (simp add: floor_eq_iff)
  then show ?thesis using assms False by (simp add: rhe_def)
qed

lemma ulp_of_subnormal:
  assumes "x \<noteq> 0" "\<bar>x\<bar> < 2 powi (- 1022)"
  shows "ulp_of x = 2 powi (- 1074)"
proof -
  have "0 < \<bar>x\<bar>" using assms(1) by simp
  from ilog2_bounds [OF this] assms(2) have "(2::rat) powi (ilog2 \<bar>x\<bar>) < 2 powi (- 1022)"
    by linarith
  then have "ilog2 \<bar>x\<bar> < - 1022" by (rule two_powi_less_imp)
  then show ?thesis by (simp add: ulp_of_def)
qed

lemma rnd_subnormal:
  assumes "\<bar>x\<bar> < 2 powi (- 1022)"
  shows "rnd x = Fin (of_int (rhe (x / 2 powi (- 1074))) * 2 powi (- 1074))"
proof (cases "x = 0")
  case True
  have "rhe 0 = 0" using rhe_of_int [of 0] by simp
  with True show ?thesis by simp
next
  case False
  have u: "ulp_of x = 2 powi (- 1074)" using False assms by (rule ulp_of_subnormal)
  have "\<bar>x / 2 powi (- 1074)\<bar> = \<bar>x\<bar> / 2 powi (- 1074)" by simp
  also have "\<dots> \<le> 2 powi (- 1022) / 2 powi (- 1074)"
    using assms by (simp add: divide_right_mono)
  also have "\<dots> = of_int (2 ^ 52)"
    by (simp only: two_powi_diff [symmetric]) simp
  finally have "\<bar>rhe (x / 2 powi (- 1074))\<bar> \<le> 2 ^ 52" by (rule rhe_abs_le)
  then have "(of_int \<bar>rhe (x / 2 powi (- 1074))\<bar> :: rat) \<le> of_int (2 ^ 52)"
    by (simp only: of_int_le_iff)
  then have "\<bar>of_int (rhe (x / 2 powi (- 1074))) :: rat\<bar> \<le> 2 ^ 52"
    by simp
  then have "\<bar>of_int (rhe (x / 2 powi (- 1074))) * 2 powi (- 1074) :: rat\<bar> \<le> 2 ^ 52 * 2 powi (- 1074)"
    by (simp add: abs_mult mult_right_mono)
  also have "(2::rat) ^ 52 * 2 powi (- 1074) = 2 powi (52 + (- 1074))"
    by (simp only: two_powi_add) simp
  also have "\<dots> \<le> 2 powi 0"
    by (intro two_powi_mono) simp
  also have "\<dots> < 2 ^ 1024" by simp
  finally have "\<not> 2 ^ 1024 \<le> \<bar>of_int (rhe (x / 2 powi (- 1074))) * 2 powi (- 1074) :: rat\<bar>"
    by simp
  then show ?thesis
    using False by (simp add: rnd_def u Let_def del: power_numeral)
qed

lemma rnd_underflow:
  assumes "\<bar>x\<bar> < 2 powi (- 1075)"
  shows "rnd x = Fin 0"
proof -
  have "(2::rat) powi (- 1075) \<le> 2 powi (- 1022)" by (intro two_powi_mono) simp
  with assms have sub: "\<bar>x\<bar> < 2 powi (- 1022)" by linarith
  have "\<bar>x / 2 powi (- 1074)\<bar> = \<bar>x\<bar> / 2 powi (- 1074)" by simp
  also have "\<dots> < 2 powi (- 1075) / 2 powi (- 1074)"
    using assms by (simp add: divide_strict_right_mono)
  also have "\<dots> = 1 / 2"
    by (simp only: two_powi_diff [symmetric]) simp
  finally have "rhe (x / 2 powi (- 1074)) = 0" by (rule rhe_small)
  with rnd_subnormal [OF sub] show ?thesis by simp
qed


subsection \<open>Lower bounds of rounded values\<close>

lemma ilog2_ge:
  assumes "2 powi k \<le> x"
  shows "k \<le> ilog2 x"
proof -
  have "0 < (2::rat) powi k" by simp
  with assms have "0 < x" by linarith
  from ilog2_bounds [OF this] assms have "(2::rat) powi k < 2 powi (ilog2 x + 1)" by linarith
  then have "k < ilog2 x + 1" by (rule two_powi_less_imp)
  then show ?thesis by simp
qed

text \<open>The rounded quotient by the spacing, for a magnitude of at least \<open>2 powi k\<close>.\<close>

lemma rhe_ulp_lower:
  assumes lo: "2 powi k \<le> \<bar>x\<bar>" and k: "- 1074 \<le> k"
  shows "2 powi k \<le> \<bar>of_int (rhe (x / ulp_of x)) * ulp_of x\<bar>
    \<and> (0 < x \<longrightarrow> 0 < rhe (x / ulp_of x)) \<and> (x < 0 \<longrightarrow> rhe (x / ulp_of x) < 0)"
proof -
  define e where "e = ilog2 \<bar>x\<bar>"
  define E where "E = max e (- 1022) - 52"
  define d where "d = nat (e - E)"
  have ke: "k \<le> e" unfolding e_def using lo by (rule ilog2_ge)
  have u: "ulp_of x = 2 powi E" by (simp add: ulp_of_def E_def e_def)
  have eE: "0 \<le> e - E" using ke k by (simp add: E_def)
  then have d: "e = E + int d" by (simp add: d_def)
  have xpos: "0 < \<bar>x\<bar>"
  proof -
    have "0 < (2::rat) powi k" by simp
    with lo show ?thesis by linarith
  qed
  have "2 powi e \<le> \<bar>x\<bar>"
    using ilog2_bounds [OF xpos] by (simp add: e_def)
  then have "2 powi e / 2 powi E \<le> \<bar>x\<bar> / 2 powi E"
    by (simp add: divide_right_mono)
  moreover have "(2::rat) powi e / 2 powi E = of_int (2 ^ d)"
    by (simp add: two_powi_diff [symmetric] d)
  ultimately have q: "of_int (2 ^ d) \<le> \<bar>x\<bar> / 2 powi E" by simp
  have dpos: "(0::int) < 2 ^ d" by simp
  have mag: "2 ^ d \<le> \<bar>rhe (x / ulp_of x)\<bar> \<and> (0 < x \<longrightarrow> 0 < rhe (x / ulp_of x))
      \<and> (x < 0 \<longrightarrow> rhe (x / ulp_of x) < 0)"
  proof (cases "0 < x")
    case True
    with q have "of_int (2 ^ d) \<le> x / ulp_of x" by (simp add: u)
    then have ge: "2 ^ d \<le> rhe (x / ulp_of x)" by (rule rhe_ge_int)
    with dpos have "0 < rhe (x / ulp_of x)" by linarith
    with ge True show ?thesis by simp
  next
    case False
    with xpos have neg: "x < 0" by simp
    with q have "x / ulp_of x \<le> of_int (- (2 ^ d))" by (simp add: u)
    then have le: "rhe (x / ulp_of x) \<le> - (2 ^ d)" by (rule rhe_le_int)
    with dpos have "rhe (x / ulp_of x) < 0" by linarith
    with le neg show ?thesis by simp
  qed
  then have "(of_int (2 ^ d) :: rat) \<le> of_int \<bar>rhe (x / ulp_of x)\<bar>"
    by (simp only: of_int_le_iff)
  then have "(2::rat) ^ d * 2 powi E \<le> \<bar>of_int (rhe (x / ulp_of x))\<bar> * 2 powi E"
    by (simp add: mult_right_mono)
  moreover have "(2::rat) ^ d * 2 powi E = 2 powi e"
    by (simp add: d two_powi_add)
  moreover have "(2::rat) powi k \<le> 2 powi e"
    using ke by (rule two_powi_mono)
  ultimately have "2 powi k \<le> \<bar>of_int (rhe (x / ulp_of x)) :: rat\<bar> * 2 powi E" by linarith
  then have "2 powi k \<le> \<bar>of_int (rhe (x / ulp_of x)) * ulp_of x\<bar>"
    by (simp add: u abs_mult)
  with mag show ?thesis by simp
qed

lemma rnd_mag_at_least:
  assumes "2 powi k \<le> \<bar>x\<bar>" and "- 1074 \<le> k"
  shows "mag_at_least (2 powi k) (rnd x)"
proof -
  have "0 < (2::rat) powi k" by simp
  with assms(1) have "0 < \<bar>x\<bar>" by linarith
  then have "x \<noteq> 0" by simp
  then show ?thesis
    using rhe_ulp_lower [OF assms] by (simp add: rnd_def Let_def del: power_numeral)
qed

lemma rnd_at_least:
  assumes "2 powi k \<le> x" and "- 1074 \<le> k"
  shows "at_least (2 powi k) (rnd x)"
proof -
  have "0 < (2::rat) powi k" by simp
  with assms(1) have x: "0 < x" by linarith
  then have lo: "2 powi k \<le> \<bar>x\<bar>" using assms(1) by simp
  have u: "0 < ulp_of x" by (rule ulp_of_pos)
  from rhe_ulp_lower [OF lo assms(2)] x
  have "2 powi k \<le> \<bar>of_int (rhe (x / ulp_of x)) * ulp_of x\<bar>" "0 < rhe (x / ulp_of x)"
    by simp_all
  moreover from this(2) u have "0 < of_int (rhe (x / ulp_of x)) * ulp_of x" by simp
  ultimately have "2 powi k \<le> of_int (rhe (x / ulp_of x)) * ulp_of x" by simp
  then show ?thesis
    using x by (simp add: rnd_def Let_def del: power_numeral)
qed

lemma rnd_at_least_0:
  assumes "0 \<le> x"
  shows "at_least 0 (rnd x)"
proof (cases "x = 0")
  case True
  then show ?thesis by simp
next
  case False
  with assms have x: "0 < x" by simp
  have u: "0 < ulp_of x" by (rule ulp_of_pos)
  then have "of_int 0 \<le> x / ulp_of x" using x by simp
  then have "0 \<le> rhe (x / ulp_of x)" by (rule rhe_ge_int)
  then have "0 \<le> of_int (rhe (x / ulp_of x)) * ulp_of x" using u by simp
  then show ?thesis
    using x by (simp add: rnd_def Let_def del: power_numeral)
qed


subsection \<open>Converted integers and counts\<close>

lemma rnd_normal_bounds:
  assumes lo: "2 powi k \<le> x" and hi: "x < 2 powi (k + 1)" and k: "- 1022 \<le> k" "k < 1023"
  shows "\<exists>r. rnd x = Fin r \<and> 2 powi k \<le> r \<and> r \<le> 2 powi (k + 1)"
proof -
  have "0 < (2::rat) powi k" by simp
  with lo have x: "0 < x" by linarith
  then have ax: "\<bar>x\<bar> = x" by simp
  define r where "r = of_int (rhe (x / 2 powi (k - 52))) * (2::rat) powi (k - 52)"
  have eq: "rnd x = Fin r"
    unfolding r_def using lo hi k by (intro rnd_normal) (simp_all add: ax)
  have upos: "0 < (2::rat) powi (k - 52)" by simp
  have "x / 2 powi (k - 52) \<le> 2 powi (k + 1) / 2 powi (k - 52)"
    using hi upos by (simp add: divide_right_mono)
  also have "\<dots> = 2 powi 53"
    by (simp only: two_powi_diff [symmetric]) simp
  also have "\<dots> = of_int (2 ^ 53)" by simp
  finally have "rhe (x / 2 powi (k - 52)) \<le> 2 ^ 53" by (rule rhe_le_int)
  then have "(of_int (rhe (x / 2 powi (k - 52))) :: rat) \<le> of_int (2 ^ 53)"
    by (simp only: of_int_le_iff)
  then have "r \<le> of_int (2 ^ 53) * 2 powi (k - 52)"
    unfolding r_def by (intro mult_right_mono) simp_all
  also have "\<dots> = 2 powi (53 + (k - 52))"
    by (simp only: two_powi_add) simp
  also have "\<dots> = 2 powi (k + 1)" by (rule arg_cong [where f = "\<lambda>j. 2 powi j"]) simp
  finally have up: "r \<le> 2 powi (k + 1)" .
  have "at_least (2 powi k) (rnd x)"
    using lo k by (intro rnd_at_least) simp_all
  with eq have "2 powi k \<le> r" by simp
  with eq up show ?thesis by blast
qed

lemma d_of_nat_count:
  assumes "0 < n" "n < 2 ^ 64"
  shows "\<exists>r. d_of_nat n = Fin r \<and> 1 \<le> r \<and> r \<le> 2 powi 64"
proof -
  define x :: rat where "x = of_nat n"
  define k where "k = ilog2 x"
  have x1: "1 \<le> x" using assms(1) by (simp add: x_def)
  have "(of_nat n :: rat) < of_nat (2 ^ 64)"
    using assms(2) by (simp only: of_nat_less_iff)
  then have x64: "x < 2 powi 64" by (simp add: x_def)
  have xpos: "0 < x" using x1 by simp
  from ilog2_bounds [OF xpos] have b: "2 powi k \<le> x" "x < 2 powi (k + 1)"
    by (simp_all add: k_def)
  have "2 powi 0 \<le> x" using x1 by simp
  then have k0: "0 \<le> k" unfolding k_def by (rule ilog2_ge)
  from b(1) x64 have "(2::rat) powi k < 2 powi 64" by linarith
  then have k64: "k < 64" by (rule two_powi_less_imp)
  from rnd_normal_bounds [OF b] k0 k64 obtain r
    where r: "rnd x = Fin r" "2 powi k \<le> r" "r \<le> 2 powi (k + 1)" by auto
  have "(2::rat) powi 0 \<le> 2 powi k" using k0 by (rule two_powi_mono)
  with r(2) have "1 \<le> r" by simp
  moreover have "(2::rat) powi (k + 1) \<le> 2 powi 64" using k64 by (intro two_powi_mono) simp
  with r(3) have "r \<le> 2 powi 64" by linarith
  ultimately show ?thesis using r(1) by (simp add: d_of_nat_def x_def)
qed

lemma d_of_int_finite:
  assumes "\<bar>i\<bar> < 2 ^ 1023"
  shows "\<exists>r. d_of_int i = Fin r"
proof (cases "i = 0")
  case True
  then show ?thesis by (simp add: d_of_int_def)
next
  case False
  define x :: rat where "x = of_int i"
  define k where "k = ilog2 \<bar>x\<bar>"
  from False have "1 \<le> \<bar>i\<bar>" by simp
  then have "(of_int 1 :: rat) \<le> of_int \<bar>i\<bar>" by (simp only: of_int_le_iff)
  then have x1: "1 \<le> \<bar>x\<bar>" by (simp add: x_def)
  have "(of_int \<bar>i\<bar> :: rat) < of_int (2 ^ 1023)"
    using assms by (simp only: of_int_less_iff)
  then have xhi: "\<bar>x\<bar> < 2 powi 1023" by (simp add: x_def)
  have xpos: "0 < \<bar>x\<bar>" using x1 by linarith
  from ilog2_bounds [OF xpos] have b: "2 powi k \<le> \<bar>x\<bar>" "\<bar>x\<bar> < 2 powi (k + 1)"
    by (simp_all add: k_def)
  have "2 powi 0 \<le> \<bar>x\<bar>" using x1 by simp
  then have k0: "0 \<le> k" unfolding k_def by (rule ilog2_ge)
  from b(1) xhi have "(2::rat) powi k < 2 powi 1023" by linarith
  then have khi: "k < 1023" by (rule two_powi_less_imp)
  from rnd_normal [OF b] k0 khi show ?thesis
    by (simp add: d_of_int_def x_def)
qed



section \<open>The folds of the collection reductions\<close>

lemmas double_ops = zero_double_def plus_double_def minus_double_def times_double_def

lemma transform_loop_foldl:
  "transform_loop func r xs = foldl (+) r (map func xs)"
  by (induction xs arbitrary: r) simp_all

lemma sum_loop_sum_list: "sum_loop r xs = r + sum_list (xs :: 'a::monoid_add list)"
  by (induction xs arbitrary: r) (simp_all add: add.assoc)

lemma transform_loop_sum_list:
  "transform_loop g r xs = r + (\<Sum>x\<leftarrow>xs. g x :: 'm::monoid_add)"
  by (induction xs arbitrary: r) (simp_all add: add.assoc)

lemma sqdev_loop_foldl:
  "sqdev_loop cast mu acc xs = foldl (+) acc (map (\<lambda>x. (cast x - mu) * (cast x - mu)) xs)"
  by (induction xs arbitrary: acc) (simp_all add: Let_def)

text \<open>
  C4: for every sequence of an element type with an addition, \<^verbatim>\<open>sum\<close> returns the fold
  of the addition over all elements in sequence order, started from the type's
  value-initialised zero; for the empty sequence it returns that zero.  Where the addition
  is associative with the zero as its unit (the integers modulo \<open>2 ^ n\<close>), this is the sum
  of the elements.
  \<open>sum([1, 2, 3, 4]) = 10\<close> over \<^verbatim>\<open>int\<close> and \<open>sum([1.5, 2.0, 0.5]) = 4.0\<close> over
  \<^verbatim>\<open>double\<close>.
\<close>

theorem sum_additive_fold:
  fixes container :: "'a::{zero,plus} list" and numbers :: "'b::monoid_add list"
  shows "sum_cn container = foldl (+) 0 container
    \<and> sum_cn ([] :: 'a list) = 0
    \<and> sum_cn numbers = sum_list numbers
    \<and> sum_cn [1, 2, 3, 4 :: 32 word] = 10
    \<and> sum_cn [Fin (3 / 2), Fin 2, Fin (1 / 2)] = Fin 4"
proof -
  have "sum_cn numbers = sum_list numbers"
    by (simp add: sum_cn_def sum_loop_sum_list)
  then show ?thesis
    by (simp add: sum_cn_def sum_loop_foldl double_ops rnd_small)
qed

text \<open>
  C8: for every sequence and every mapping \<open>func\<close> into a type \<open>R\<close> with an addition,
  \<^verbatim>\<open>transform_reduce\<close> applies \<open>func\<close> to every element and folds the results with
  the addition of \<open>R\<close>, started from the zero of \<open>R\<close>; the empty sequence yields that
  zero.  \<open>transform_reduce([1, 2, 3], x \<mapsto> x * x) = 14\<close> over \<^verbatim>\<open>double\<close> and
  \<open>transform_reduce([1, 2, 3], x \<mapsto> x + 10) = 36\<close> over \<^verbatim>\<open>int\<close>.
\<close>

theorem transform_reduce_map_fold:
  fixes container :: "'a list" and func :: "'a \<Rightarrow> 'r::{zero,plus}"
    and g :: "'a \<Rightarrow> 'm::monoid_add"
  shows "transform_reduce container func = foldl (+) 0 (map func container)
    \<and> transform_reduce ([] :: 'a list) func = 0
    \<and> transform_reduce container g = (\<Sum>x\<leftarrow>container. g x)
    \<and> transform_reduce [Fin 1, Fin 2, Fin 3] (\<lambda>x. x * x) = Fin 14
    \<and> transform_reduce [1, 2, 3 :: 32 word] (\<lambda>x. x + 10) = 36"
proof -
  have "transform_reduce container g = (\<Sum>x\<leftarrow>container. g x)"
    by (simp add: transform_reduce_def transform_loop_sum_list)
  then show ?thesis
    by (simp add: transform_reduce_def transform_loop_foldl double_ops rnd_small)
qed





section \<open>The maximum\<close>

lemma max_loop_mem: "max_loop gt r xs \<in> insert r (set xs)"
  by (induction xs arbitrary: r) auto

lemma max_loop_snoc:
  "max_loop gt r (xs @ [e]) = (if gt e (max_loop gt r xs) then e else max_loop gt r xs)"
  by (induction xs arbitrary: r) simp_all

lemma max_loop_ge:
  assumes "transp gt"
  shows "max_loop gt r xs = r \<or> gt (max_loop gt r xs) r"
proof (induction xs arbitrary: r)
  case Nil
  then show ?case by simp
next
  case (Cons x xs)
  show ?case
  proof (cases "gt x r")
    case True
    with Cons [of x] assms show ?thesis by (auto dest: transpD)
  next
    case False
    with Cons [of r] show ?thesis by simp
  qed
qed

lemma max_loop_not_exceeded:
  assumes "transp gt" "irreflp gt" "e \<in> set xs"
  shows "\<not> gt e (max_loop gt r xs)"
  using assms(3)
proof (induction xs arbitrary: r)
  case Nil
  then show ?case by simp
next
  case (Cons x xs)
  define r' where "r' = (if gt x r then x else r)"
  have step: "max_loop gt r (x # xs) = max_loop gt r' xs" by (simp add: r'_def)
  show ?case
  proof (cases "e \<in> set xs")
    case True
    then show ?thesis using Cons.IH [of r'] step by simp
  next
    case False
    with Cons.prems have e: "e = x" by simp
    have nx: "\<not> gt x r'"
      using assms(2) by (auto simp add: r'_def irreflp_def)
    from max_loop_ge [OF assms(1), of r' xs] show ?thesis
    proof
      assume "max_loop gt r' xs = r'"
      with nx e step show ?thesis by simp
    next
      assume g: "gt (max_loop gt r' xs) r'"
      show ?thesis
      proof
        assume "gt e (max_loop gt r (x # xs))"
        then have "gt x (max_loop gt r' xs)" using e step by simp
        with g assms(1) have "gt x r'" by (auto dest: transpD)
        with nx show False ..
      qed
    qed
  qed
qed

lemma max_loop_keeps:
  assumes "\<forall>e \<in> set xs. \<not> gt e r"
  shows "max_loop gt r xs = r"
  using assms by (induction xs) simp_all

lemma max_loop_append:
  "max_loop gt r (xs @ ys) = max_loop gt (max_loop gt r xs) ys"
  by (induction xs arbitrary: r) simp_all

lemma max_loop_before_tie:
  assumes tr: "transp gt" and irr: "irreflp gt"
    and neg: "\<And>a b c. a \<in> S \<Longrightarrow> b \<in> S \<Longrightarrow> c \<in> S \<Longrightarrow>
                \<not> gt a b \<Longrightarrow> \<not> gt b c \<Longrightarrow> \<not> gt a c"
    and S: "insert r (set (pre @ y # post)) \<subseteq> S"
    and top: "\<forall>e \<in> set post. \<not> gt e y"
    and ne: "max_loop gt r (pre @ y # post) \<noteq> y"
  shows "max_loop gt r (pre @ y # post) \<in> insert r (set pre)"
proof -
  define r1 where "r1 = max_loop gt r pre"
  define r2 where "r2 = (if gt y r1 then y else r1)"
  define R where "R = max_loop gt r2 post"
  have R: "max_loop gt r (pre @ y # post) = R"
    by (simp add: max_loop_append r1_def r2_def R_def)
  have r1: "r1 \<in> insert r (set pre)"
    unfolding r1_def by (rule max_loop_mem)
  have mem: "R \<in> insert r2 (set post)"
    unfolding R_def by (rule max_loop_mem)
  have ge: "R = r2 \<or> gt R r2"
    unfolding R_def by (rule max_loop_ge [OF tr])
  have Ry: "R \<noteq> y" using ne R by simp
  show ?thesis
  proof (cases "gt y r1")
    case True
    then have r2: "r2 = y" by (simp add: r2_def)
    with ge Ry have "gt R y" by simp
    moreover from mem r2 Ry have "R \<in> set post" by simp
    ultimately show ?thesis using top by blast
  next
    case False
    then have r2: "r2 = r1" by (simp add: r2_def)
    show ?thesis
    proof (cases "R = r1")
      case True
      with r1 R show ?thesis by simp
    next
      case False
      with ge r2 have g: "gt R r1" by simp
      from mem r2 False have Rp: "R \<in> set post" by simp
      with top have nRy: "\<not> gt R y" by blast
      have "R \<in> S" "y \<in> S" "r1 \<in> S" using Rp r1 S by auto
      from neg [OF this nRy \<open>\<not> gt y r1\<close>] g show ?thesis by simp
    qed
  qed
qed

lemma max_cn_first_top:
  assumes tr: "transp gt" and irr: "irreflp gt"
    and neg: "\<And>a b c. a \<in> set container \<Longrightarrow> b \<in> set container \<Longrightarrow> c \<in> set container \<Longrightarrow>
                \<not> gt a b \<Longrightarrow> \<not> gt b c \<Longrightarrow> \<not> gt a c"
    and c: "container = first # rest"
  shows "find (\<lambda>x. \<forall>e \<in> set container. \<not> gt e x) container
           = Some (max_loop gt first container)"
proof -
  define R where "R = max_loop gt first container"
  define P where "P = (\<lambda>x. \<forall>e \<in> set container. \<not> gt e x)"
  have PR: "P R"
    unfolding P_def R_def using max_loop_not_exceeded [OF tr irr] by blast
  have "R \<in> insert first (set container)"
    unfolding R_def by (rule max_loop_mem)
  then have Rin: "R \<in> set container" using c by auto
  define i where "i = (LEAST k. k < length container \<and> container ! k = R)"
  have ex: "\<exists>k. k < length container \<and> container ! k = R"
    using Rin by (simp add: in_set_conv_nth)
  then have i: "i < length container" "container ! i = R"
    unfolding i_def by (metis (mono_tags, lifting) LeastI_ex)+
  have least: "\<And>k. k < i \<Longrightarrow> container ! k \<noteq> R"
  proof
    fix k assume "k < i" "container ! k = R"
    then have "k < length container \<and> container ! k = R" using i(1) by simp
    then have "i \<le> k" unfolding i_def by (rule Least_le)
    with \<open>k < i\<close> show False by simp
  qed
  have before: "\<not> P (container ! j)" if j: "j < i" for j
  proof
    assume Pj: "P (container ! j)"
    define y where "y = container ! j"
    have jl: "j < length container" using j i(1) by simp
    have split: "container = take j container @ y # drop (Suc j) container"
      unfolding y_def using jl by (simp add: id_take_nth_drop)
    have top: "\<forall>e \<in> set (drop (Suc j) container). \<not> gt e y"
      using Pj unfolding P_def y_def by (meson in_set_dropD)
    have ne: "max_loop gt first (take j container @ y # drop (Suc j) container) \<noteq> y"
      using least [OF j] split by (simp add: R_def y_def)
    have sub: "insert first (set (take j container @ y # drop (Suc j) container)) \<subseteq> set container"
      using split c by (metis insert_subset list.set_intros(1) order_refl)
    from max_loop_before_tie [OF tr irr neg sub top ne]
    have "R \<in> insert first (set (take j container))"
      using split by (simp add: R_def)
    moreover have "first \<in> set (take j container)" if "0 < j"
      using that c by (cases j) simp_all
    moreover have "R \<noteq> first" if "j = 0"
      using that least [OF j] c by auto
    ultimately have "R \<in> set (take j container)"
      by (cases "j = 0") auto
    then obtain k where "k < j" "container ! k = R"
      using jl by (auto simp add: in_set_conv_nth)
    with least [of k] j show False by simp
  qed
  have "find P container = Some R"
    unfolding find_Some_iff using i PR before by blast
  then show ?thesis by (simp add: P_def R_def)
qed

lemma igt_order: "transp (igt sg)" "irreflp (igt sg)"
  by (auto simp add: igt_def transp_def irreflp_def)

lemma igt_negative_transitive:
  "\<not> igt sg a b \<Longrightarrow> \<not> igt sg b c \<Longrightarrow> \<not> igt sg a c"
  by (simp add: igt_def)

lemma dgt_order: "transp dgt" "irreflp dgt"
proof -
  have "dgt a c" if "dgt a b" "dgt b c" for a b c
    using that by (cases a; cases b; cases c) simp_all
  then show "transp dgt" by (auto simp add: transp_def)
  have "\<not> dgt a a" for a by (cases a) simp_all
  then show "irreflp dgt" by (simp add: irreflp_def)
qed

lemma dgt_negative_transitive:
  assumes "a \<noteq> NaN" "b \<noteq> NaN" "c \<noteq> NaN" "\<not> dgt a b" "\<not> dgt b c"
  shows "\<not> dgt a c"
  using assms by (cases a; cases b; cases c) simp_all

lemma max_cn_greatest:
  assumes ne: "container \<noteq> []" and tr: "transp gt" and irr: "irreflp gt"
  shows "\<exists>r. max_cn gt container = Inr r \<and> r \<in> set container
      \<and> (\<forall>e \<in> set container. \<not> gt e r)
      \<and> ((\<forall>e \<in> set container. \<not> gt e (hd container)) \<longrightarrow> r = hd container)
      \<and> max_cn gt (container @ [x]) = Inr (if gt x r then x else r)
      \<and> ((\<forall>a \<in> set container. \<forall>b \<in> set container. \<forall>c \<in> set container.
             \<not> gt a b \<longrightarrow> \<not> gt b c \<longrightarrow> \<not> gt a c) \<longrightarrow>
           find (\<lambda>y. \<forall>e \<in> set container. \<not> gt e y) container = Some r)"
proof -
  from ne obtain first rest where c: "container = first # rest"
    by (cases container) simp_all
  define r where "r = max_loop gt first container"
  have 1: "max_cn gt container = Inr r"
    by (simp add: max_cn_def c r_def)
  have "r \<in> insert first (set container)"
    unfolding r_def by (rule max_loop_mem)
  then have 2: "r \<in> set container" using c by auto
  have 3: "\<forall>e \<in> set container. \<not> gt e r"
    unfolding r_def using max_loop_not_exceeded [OF tr irr] by blast
  have 4: "(\<forall>e \<in> set container. \<not> gt e (hd container)) \<longrightarrow> r = hd container"
    using max_loop_keeps [of container gt first] c by (simp add: r_def)
  have 5: "max_cn gt (container @ [x]) = Inr (if gt x r then x else r)"
    using max_loop_snoc [of gt first container x] by (simp add: max_cn_def c r_def)
  have 6: "(\<forall>a \<in> set container. \<forall>b \<in> set container. \<forall>c \<in> set container.
             \<not> gt a b \<longrightarrow> \<not> gt b c \<longrightarrow> \<not> gt a c) \<longrightarrow>
      find (\<lambda>y. \<forall>e \<in> set container. \<not> gt e y) container = Some r"
  proof
    assume "\<forall>a \<in> set container. \<forall>b \<in> set container. \<forall>c \<in> set container.
             \<not> gt a b \<longrightarrow> \<not> gt b c \<longrightarrow> \<not> gt a c"
    then have "\<And>a b c. a \<in> set container \<Longrightarrow> b \<in> set container \<Longrightarrow> c \<in> set container \<Longrightarrow>
                \<not> gt a b \<Longrightarrow> \<not> gt b c \<Longrightarrow> \<not> gt a c" by blast
    from max_cn_first_top [OF tr irr this c]
    show "find (\<lambda>y. \<forall>e \<in> set container. \<not> gt e y) container = Some r"
      by (simp add: r_def)
  qed
  from 1 2 3 4 5 6 show ?thesis by blast
qed

text \<open>
  C6: for every non-empty sequence of integers (of either signedness and any width) and
  every non-empty sequence of \<^verbatim>\<open>double\<close>s, \<^verbatim>\<open>max\<close> returns a value \<open>r\<close> that is an
  element of the input and that no element of the input exceeds under \<^verbatim>\<open>>\<close>.  The
  candidate starts as the first element and stays the first element when no element exceeds
  it; a further element replaces the candidate only when it is greater, never on a tie; and
  \<open>r\<close> is the first element of the input that no element exceeds (over \<^verbatim>\<open>double\<close>:
  when the input holds no NaN, which compares false with everything).
  \<open>max([3, 9, 2, 7]) = 9\<close> and \<open>max([1.2, 4.8, 3.1]) = 4.8\<close>.
\<close>

theorem max_greatest_first_seen:
  fixes ints :: "'a::len word list" and doubles :: "double list"
  shows "(ints \<noteq> [] \<longrightarrow>
        (\<exists>r. max_cn (igt sg) ints = Inr r \<and> r \<in> set ints
            \<and> (\<forall>e \<in> set ints. \<not> igt sg e r)
            \<and> ((\<forall>e \<in> set ints. \<not> igt sg e (hd ints)) \<longrightarrow> r = hd ints)
            \<and> max_cn (igt sg) (ints @ [i]) = Inr (if igt sg i r then i else r)
            \<and> find (\<lambda>y. \<forall>e \<in> set ints. \<not> igt sg e y) ints = Some r))
     \<and> (doubles \<noteq> [] \<longrightarrow>
        (\<exists>r. max_cn dgt doubles = Inr r \<and> r \<in> set doubles
            \<and> (\<forall>e \<in> set doubles. \<not> dgt e r)
            \<and> ((\<forall>e \<in> set doubles. \<not> dgt e (hd doubles)) \<longrightarrow> r = hd doubles)
            \<and> max_cn dgt (doubles @ [d]) = Inr (if dgt d r then d else r)
            \<and> (NaN \<notin> set doubles \<longrightarrow>
                 find (\<lambda>y. \<forall>e \<in> set doubles. \<not> dgt e y) doubles = Some r)))
     \<and> max_cn (igt Signed) [3, 9, 2, 7 :: 32 word] = Inr 9
     \<and> max_cn dgt [rnd (12 / 10), rnd (48 / 10), rnd (31 / 10)] = Inr (rnd (48 / 10))"
proof -
  have 1: "\<exists>r. max_cn (igt sg) ints = Inr r \<and> r \<in> set ints
            \<and> (\<forall>e \<in> set ints. \<not> igt sg e r)
            \<and> ((\<forall>e \<in> set ints. \<not> igt sg e (hd ints)) \<longrightarrow> r = hd ints)
            \<and> max_cn (igt sg) (ints @ [i]) = Inr (if igt sg i r then i else r)
            \<and> find (\<lambda>y. \<forall>e \<in> set ints. \<not> igt sg e y) ints = Some r"
    if "ints \<noteq> []"
    using max_cn_greatest [OF that igt_order, of sg i] igt_negative_transitive [of sg]
    by blast
  have 2: "\<exists>r. max_cn dgt doubles = Inr r \<and> r \<in> set doubles
            \<and> (\<forall>e \<in> set doubles. \<not> dgt e r)
            \<and> ((\<forall>e \<in> set doubles. \<not> dgt e (hd doubles)) \<longrightarrow> r = hd doubles)
            \<and> max_cn dgt (doubles @ [d]) = Inr (if dgt d r then d else r)
            \<and> (NaN \<notin> set doubles \<longrightarrow>
                 find (\<lambda>y. \<forall>e \<in> set doubles. \<not> dgt e y) doubles = Some r)"
    if "doubles \<noteq> []"
  proof -
    have nt: "\<forall>a \<in> set doubles. \<forall>b \<in> set doubles. \<forall>c \<in> set doubles.
             \<not> dgt a b \<longrightarrow> \<not> dgt b c \<longrightarrow> \<not> dgt a c" if "NaN \<notin> set doubles"
      using that dgt_negative_transitive by metis
    from max_cn_greatest [OF \<open>doubles \<noteq> []\<close> dgt_order, of d] nt show ?thesis
      by blast
  qed
  have 3: "max_cn (igt Signed) [3, 9, 2, 7 :: 32 word] = Inr 9"
    by (simp add: max_cn_def igt_def)
  have 4: "max_cn dgt [rnd (12 / 10), rnd (48 / 10), rnd (31 / 10)] = Inr (rnd (48 / 10))"
    using rnd_6_5 rnd_24_5 rnd_31_10 by (simp add: max_cn_def)
  from 1 2 3 4 show ?thesis by blast
qed

theorem max_greatest_first_seen_witness:
  "max_cn (igt Signed) [3, 9, 2, 9, - 5 :: 32 word] = Inr 9
   \<and> max_cn (igt Signed) [3, 9, 2, 9, - 5, 10 :: 32 word] = Inr 10
   \<and> find (\<lambda>y. list_all (\<lambda>e. \<not> igt Signed e y) [3, 9, 2, 9, - 5 :: 32 word])
        [3, 9, 2, 9, - 5 :: 32 word] = Some 9
   \<and> max_cn dgt [Fin 1, NaN, Fin 2, Fin 2] = Inr (Fin 2)
   \<and> max_cn dgt [NaN, Fin 1] = Inr NaN"
proof -
  from max_greatest_first_seen [of "[3, 9, 2, 9, - 5 :: 32 word]" Signed 10 "[Fin 1, NaN, Fin 2, Fin 2]" NaN]
  obtain r :: "32 word" and s :: double
    where r: "max_cn (igt Signed) [3, 9, 2, 9, - 5] = Inr r"
    and snoc: "max_cn (igt Signed) ([3, 9, 2, 9, - 5] @ [10]) = Inr (if igt Signed 10 r then 10 else r)"
    and first: "find (\<lambda>y. \<forall>e \<in> set [3, 9, 2, 9, - 5 :: 32 word]. \<not> igt Signed e y) [3, 9, 2, 9, - 5] = Some r"
    and s: "max_cn dgt [Fin 1, NaN, Fin 2, Fin 2] = Inr s"
    and top: "\<forall>e \<in> set [Fin 1, NaN, Fin 2, Fin 2]. \<not> dgt e s"
    by auto
  have r9: "r = 9" using r by (simp add: max_cn_def igt_def)
  have s2: "s = Fin 2" using s by (simp add: max_cn_def)
  have f: "find (\<lambda>y. list_all (\<lambda>e. \<not> igt Signed e y) [3, 9, 2, 9, - 5 :: 32 word])
        [3, 9, 2, 9, - 5 :: 32 word] = Some r"
    using first by (simp only: list_all_iff)
  have n: "max_cn dgt [NaN, Fin 1] = Inr NaN" by (simp add: max_cn_def)
  from r snoc r9 f s s2 n show ?thesis by (simp add: igt_def)
qed


section \<open>The variadic forms and the empty sequence\<close>

lemma fold_plus_foldr:
  "fold_plus (e # es) = Some (foldr (+) (butlast (e # es)) (last (e # es)))"
  by (induction es arbitrary: e) simp_all

lemma widen_A_double: "map (widen \<circ> (\<lambda>x. A_double (widen x))) xs = map widen xs"
  by (induction xs) simp_all


text \<open>
  C2, as stated: on an empty sequence \<^verbatim>\<open>mean\<close>, \<^verbatim>\<open>variance\<close> and \<^verbatim>\<open>max\<close> would signal
  a typed failure and never crash, read out of bounds or return a number.  On an empty
  \<^verbatim>\<open>std::vector<int>\<close> the integral \<^verbatim>\<open>mean\<close> divides by zero and \<^verbatim>\<open>max\<close> reads
  \<^verbatim>\<open>container[0]\<close>; on an empty \<^verbatim>\<open>std::vector<double>\<close> \<^verbatim>\<open>mean\<close> returns NaN, and so
  does \<^verbatim>\<open>variance\<close> in both branches.
\<close>

theorem empty_input_counterexample:
  "mean_integral Signed ([] :: 32 word list) = Inl DivisionByZero
   \<and> max_cn (igt Signed) ([] :: 32 word list) = Inl OutOfBoundsRead
   \<and> max_cn dgt [] = Inl OutOfBoundsRead
   \<and> mean_floating [] = NaN
   \<and> variance_integral Signed ([] :: 32 word list) = NaN
   \<and> variance_floating [] = NaN"
  by (simp add: mean_integral_def sum_cn_def idiv_def max_cn_def mean_floating_def
      variance_integral_def variance_floating_def d_of_int_def d_of_nat_def double_ops)

text \<open>
  C2, amended: the functions hold no check of the empty sequence and no failure value.
  On an empty sequence, for every integral element type, the integral \<^verbatim>\<open>mean\<close> divides by
  a zero count, \<^verbatim>\<open>max\<close> reads \<^verbatim>\<open>container[0]\<close> past the end, and the floating
  \<^verbatim>\<open>mean\<close> and both branches of \<^verbatim>\<open>variance\<close> return NaN (\<open>0.0 / 0.0\<close>); only
  \<^verbatim>\<open>sum\<close> and \<^verbatim>\<open>transform_reduce\<close> have a defined result, the zero value.
\<close>

theorem empty_input_unguarded:
  "mean_integral sg ([] :: 'a::len word list) = Inl DivisionByZero
   \<and> max_cn gt [] = Inl OutOfBoundsRead
   \<and> mean_floating [] = NaN
   \<and> variance_integral sg ([] :: 'a word list) = NaN
   \<and> variance_floating [] = NaN
   \<and> sum_cn ([] :: 'b::{zero,plus} list) = 0
   \<and> transform_reduce [] func = (0 :: 'c::{zero,plus})"
  by (simp add: mean_integral_def sum_cn_def idiv_def max_cn_def mean_floating_def
      variance_integral_def variance_floating_def d_of_int_def d_of_nat_def double_ops
      transform_reduce_def)
section \<open>The two branches of the variance\<close>

lemma sqdev_loop_map:
  "sqdev_loop cast mu acc xs = sqdev_loop (\<lambda>x. x) mu acc (map cast xs)"
  by (induction xs arbitrary: acc) (simp_all add: Let_def)

lemma representable_small: "\<bar>i\<bar> < 2 ^ 53 \<Longrightarrow> representable i"
  by (simp add: representable_def d_of_int_exact)

lemma sum_loop_exact:
  assumes "exact_sums a vs"
  shows "sum_loop (Fin (of_int a)) (map d_of_int vs) = Fin (of_int (a + sum_list vs))"
  using assms
proof (induction vs arbitrary: a)
  case Nil
  then show ?case by simp
next
  case (Cons v vs)
  from Cons.prems have v: "d_of_int v = Fin (of_int v)"
    and av: "d_of_int (a + v) = Fin (of_int (a + v))"
    and rest: "exact_sums (a + v) vs"
    by (simp_all add: representable_def)
  have "Fin (of_int a) + d_of_int v = rnd (of_int (a + v))"
    by (simp add: v double_ops)
  also have "\<dots> = Fin (of_int (a + v))"
    using av by (simp add: d_of_int_def)
  finally have step: "Fin (of_int a) + d_of_int v = Fin (of_int (a + v))" .
  from Cons.IH [OF rest] show ?case
    by (simp add: step add.assoc)
qed

lemma exact_sums_total:
  assumes "exact_sums a vs" "representable a"
  shows "representable (a + sum_list vs)"
  using assms
proof (induction vs arbitrary: a)
  case Nil
  then show ?case by simp
next
  case (Cons v vs)
  from Cons.prems(1) have "exact_sums (a + v) vs" "representable (a + v)" by simp_all
  then have "representable (a + v + sum_list vs)" by (rule Cons.IH)
  then show ?case by (simp add: add.assoc)
qed

lemma abs_sum_list_le: "\<bar>sum_list vs\<bar> \<le> (\<Sum>v\<leftarrow>vs. \<bar>v :: int\<bar>)"
  by (induction vs) simp_all

lemma exact_sums_small:
  assumes "\<bar>a\<bar> + (\<Sum>v\<leftarrow>vs. \<bar>v\<bar>) < 2 ^ 53"
  shows "exact_sums a vs"
  using assms
proof (induction vs arbitrary: a)
  case Nil
  then show ?case by simp
next
  case (Cons v vs)
  have nonneg: "0 \<le> (\<Sum>v\<leftarrow>vs. \<bar>v\<bar>)" by (rule sum_list_nonneg) auto
  have v: "representable v"
    using Cons.prems nonneg by (intro representable_small) simp
  have av: "representable (a + v)"
    using Cons.prems nonneg by (intro representable_small) simp
  have "\<bar>a + v\<bar> + (\<Sum>v\<leftarrow>vs. \<bar>v\<bar>) < 2 ^ 53"
    using Cons.prems by simp
  from Cons.IH [OF this] v av show ?case by simp
qed

lemma abs_ival_less: "\<bar>ival sg (x :: 'a::len word)\<bar> < 2 ^ LENGTH('a)"
proof (cases sg)
  case Signed
  have "(2::int) ^ (LENGTH('a) - 1) < 2 ^ LENGTH('a)"
    by (rule power_strict_increasing) simp_all
  with sint_ge [of x] sint_lt [of x] have "\<bar>sint x\<bar> < 2 ^ LENGTH('a)" by linarith
  with Signed show ?thesis by simp
next
  case Unsigned
  with uint_lt2p [of x] show ?thesis by simp
qed

lemma abs_ival_53:
  fixes x :: "'a::len word"
  assumes "LENGTH('a) \<le> 53"
  shows "\<bar>ival sg x\<bar> < 2 ^ 53"
proof -
  have "(2::int) ^ LENGTH('a) \<le> 2 ^ 53"
    using assms by (intro power_increasing) simp_all
  with abs_ival_less [of sg x] show ?thesis by linarith
qed

lemma ival_zero: "ival sg 0 = 0"
  by (cases sg) simp_all

lemma no_overflow_loop_sum:
  assumes "no_overflow_loop sg result container"
  shows "ival sg (sum_loop result container) = ival sg result + (\<Sum>x\<leftarrow>container. ival sg x)"
  using assms by (induction container arbitrary: result) simp_all

lemma no_overflow_sum:
  assumes "no_overflow sg container"
  shows "ival sg (sum_cn container) = (\<Sum>x\<leftarrow>container. ival sg x)"
  using no_overflow_loop_sum [of sg 0 container] assms
  by (simp add: no_overflow_def sum_cn_def ival_zero)

lemma no_overflow_loop_exact_sums:
  fixes container :: "'a::len word list"
  assumes "LENGTH('a) \<le> 53" "no_overflow_loop sg result container"
  shows "exact_sums (ival sg result) (map (ival sg) container)"
  using assms(2)
proof (induction container arbitrary: result)
  case Nil
  then show ?case by simp
next
  case (Cons elem rest)
  from Cons.prems have add: "ival sg (result + elem) = ival sg result + ival sg elem"
    and more: "no_overflow_loop sg (result + elem) rest" by simp_all
  have "representable (ival sg elem)"
    using assms(1) by (intro representable_small abs_ival_53)
  moreover have "representable (ival sg (result + elem))"
    using assms(1) by (intro representable_small abs_ival_53)
  moreover note Cons.IH [OF more]
  ultimately show ?case by (simp add: add)
qed

lemma branches_agree_when_exact:
  fixes container :: "'a::len word list"
  assumes "ival sg (sum_cn container) = (\<Sum>x\<leftarrow>container. ival sg x)"
    and "exact_sums 0 (map (ival sg) container)"
  shows "variance_integral sg container
       = variance_floating (map (\<lambda>x. d_of_int (ival sg x)) container)"
proof -
  let ?vs = "map (ival sg) container"
  have "sum_loop 0 (map (\<lambda>x. d_of_int (ival sg x)) container)
      = sum_loop (Fin (of_int 0)) (map d_of_int ?vs)"
    by (simp add: zero_double_def comp_def)
  also have "\<dots> = Fin (of_int (0 + sum_list ?vs))"
    using assms(2) by (rule sum_loop_exact)
  finally have fl: "sum_loop 0 (map (\<lambda>x. d_of_int (ival sg x)) container)
      = Fin (of_int (sum_list ?vs))" by simp
  have "representable (0 + sum_list ?vs)"
    using assms(2) by (rule exact_sums_total) (simp add: representable_def d_of_int_def)
  then have "d_of_int (ival sg (sum_cn container)) = Fin (of_int (sum_list ?vs))"
    by (simp add: assms(1) representable_def comp_def)
  with fl show ?thesis
    unfolding variance_integral_def variance_floating_def
    by (simp add: sqdev_loop_map [of "\<lambda>x. d_of_int (ival sg x)"])
qed

lemma branches_agree_narrow:
  fixes container :: "'a::len word list"
  assumes "LENGTH('a) \<le> 53" "no_overflow sg container"
  shows "variance_integral sg container
       = variance_floating (map (\<lambda>x. d_of_int (ival sg x)) container)"
proof -
  from assms have "exact_sums (ival sg (0 :: 'a word)) (map (ival sg) container)"
    unfolding no_overflow_def by (rule no_overflow_loop_exact_sums)
  then have "exact_sums 0 (map (ival sg) container)" by (simp add: ival_zero)
  with no_overflow_sum [OF assms(2)] show ?thesis by (rule branches_agree_when_exact)
qed

text \<open>
  C10, as stated, for every sequence of integer values: the \<^verbatim>\<open>long long\<close> sequence
  \<open>[2 ^ 53, 1, 1]\<close>.  The integral branch converts the exact integer sum
  \<open>2 ^ 53 + 2\<close>; the floating branch adds \<open>1.0\<close> to \<open>2 ^ 53\<close> twice, and each addition
  rounds back to \<open>2 ^ 53\<close>.  The two means differ and so do the two results.
\<close>

theorem variance_branches_counterexample:
  "variance_integral Signed [9007199254740992, 1, 1 :: 64 word] = Fin
      18028808536579259346464492486656
   \<and> variance_floating
        [d_of_int (ival Signed (9007199254740992 :: 64 word)),
         d_of_int (ival Signed (1 :: 64 word)),
         d_of_int (ival Signed (1 :: 64 word))] = Fin 18028808536579261598264306171904
   \<and> variance_integral Signed [9007199254740992, 1, 1 :: 64 word]
     \<noteq> variance_floating
        [d_of_int (ival Signed (9007199254740992 :: 64 word)),
         d_of_int (ival Signed (1 :: 64 word)),
         d_of_int (ival Signed (1 :: 64 word))]"
proof -
  have e1: "d_of_nat (length [9007199254740992, 1, 1 :: 64 word]) = Fin 3"
    by (simp add: d_of_nat_def rnd_normal [of 1] rhe_eval)
  have e2: "d_of_int (ival Signed (sum_cn [9007199254740992, 1, 1 :: 64 word])) = Fin
      9007199254740994"
    by (simp add: d_of_int_def sum_cn_def rnd_normal [of 53] rhe_eval)
  have e3: "ddiv (Fin 9007199254740994) (Fin 3) = Fin (6004799503160663 / 2)"
    by (simp add: rnd_normal [of 51] rhe_eval)
  have e4: "d_of_int (ival Signed (9007199254740992 :: 64 word)) = Fin 9007199254740992"
    by (simp add: d_of_int_def rnd_normal [of 53] rhe_eval)
  have e5: "dsub (Fin 9007199254740992) (Fin (6004799503160663 / 2)) = Fin 6004799503160660"
    by (simp add: rnd_normal [of 52] rhe_eval)
  have e6: "dmul (Fin 6004799503160660) (Fin 6004799503160660) = Fin
      36057617073158509685729730232320"
    by (simp add: rnd_normal [of 104] rhe_eval)
  have e7: "dadd (Fin 0) (Fin 36057617073158509685729730232320) = Fin
      36057617073158509685729730232320"
    by (simp add: rnd_normal [of 104] rhe_eval)
  have e8: "d_of_int (ival Signed (1 :: 64 word)) = Fin 1"
    by (simp add: d_of_int_def rnd_normal [of 0] rhe_eval)
  have e9: "dsub (Fin 1) (Fin (6004799503160663 / 2)) = Fin (- (6004799503160661 / 2))"
    by (simp add: rnd_normal [of 51] rhe_eval)
  have e10: "dmul (Fin (- (6004799503160661 / 2))) (Fin (- (6004799503160661 / 2))) = Fin
      9014404268289630799132153085952"
    by (simp add: rnd_normal [of 102] rhe_eval)
  have e11: "dadd (Fin 36057617073158509685729730232320) (Fin 9014404268289630799132153085952)
      = Fin 45072021341448140484861883318272"
    by (simp add: rnd_normal [of 105] rhe_eval)
  have e12: "dadd (Fin 45072021341448140484861883318272) (Fin 9014404268289630799132153085952)
      = Fin 54086425609737775787593663774720"
    by (simp add: rnd_normal [of 105] rhe_eval)
  have e13: "ddiv (Fin 54086425609737775787593663774720) (Fin 3) = Fin
      18028808536579259346464492486656"
    by (simp add: rnd_normal [of 103] rhe_eval)
  have e14: "d_of_nat (length [Fin 9007199254740992, Fin 1, Fin 1]) = Fin 3"
    by (simp add: d_of_nat_def rnd_normal [of 1] rhe_eval)
  have e15: "dadd (Fin 0) (Fin 9007199254740992) = Fin 9007199254740992"
    by (simp add: rnd_normal [of 53] rhe_eval)
  have e16: "dadd (Fin 9007199254740992) (Fin 1) = Fin 9007199254740992"
    by (simp add: rnd_normal [of 53] rhe_eval)
  have e17: "ddiv (Fin 9007199254740992) (Fin 3) = Fin (6004799503160661 / 2)"
    by (simp add: rnd_normal [of 51] rhe_eval)
  have e18: "dsub (Fin 9007199254740992) (Fin (6004799503160661 / 2)) = Fin 6004799503160662"
    by (simp add: rnd_normal [of 52] rhe_eval)
  have e19: "dmul (Fin 6004799503160662) (Fin 6004799503160662) = Fin
      36057617073158532203727867084800"
    by (simp add: rnd_normal [of 104] rhe_eval)
  have e20: "dadd (Fin 0) (Fin 36057617073158532203727867084800) = Fin
      36057617073158532203727867084800"
    by (simp add: rnd_normal [of 104] rhe_eval)
  have e21: "dsub (Fin 1) (Fin (6004799503160661 / 2)) = Fin (- (6004799503160659 / 2))"
    by (simp add: rnd_normal [of 51] rhe_eval)
  have e22: "dmul (Fin (- (6004799503160659 / 2))) (Fin (- (6004799503160659 / 2))) = Fin
      9014404268289624043732712030208"
    by (simp add: rnd_normal [of 102] rhe_eval)
  have e23: "dadd (Fin 36057617073158532203727867084800) (Fin 9014404268289624043732712030208)
      = Fin 45072021341448158499260392800256"
    by (simp add: rnd_normal [of 105] rhe_eval)
  have e24: "dadd (Fin 45072021341448158499260392800256) (Fin 9014404268289624043732712030208)
      = Fin 54086425609737784794792918515712"
    by (simp add: rnd_normal [of 105] rhe_eval)
  have e25: "ddiv (Fin 54086425609737784794792918515712) (Fin 3) = Fin
      18028808536579261598264306171904"
    by (simp add: rnd_normal [of 103] rhe_eval)
  have i: "variance_integral Signed [9007199254740992, 1, 1 :: 64 word] = Fin
      18028808536579259346464492486656"
    by (simp only: variance_integral_def Let_def sqdev_loop.simps double_ops e1 e2 e3 e4 e5 e6
        e7 e8 e9 e10 e11 e12 e13 e14 e15 e16 e17 e18 e19 e20 e21 e22 e23 e24 e25)
  have f: "variance_floating [Fin 9007199254740992, Fin 1, Fin 1] = Fin
      18028808536579261598264306171904"
    by (simp only: variance_floating_def Let_def sum_loop.simps sqdev_loop.simps double_ops e1
        e2 e3 e4 e5 e6 e7 e8 e9 e10 e11 e12 e13 e14 e15 e16 e17 e18 e19 e20 e21 e22 e23 e24 e25)
  show ?thesis
    unfolding i e4 e8 f by simp
qed

text \<open>
  C10, amended: for every sequence, of any length, of integers of a type of at most 53 bits
  (\<^verbatim>\<open>int\<close>, \<^verbatim>\<open>unsigned\<close>) in which no addition of \<^verbatim>\<open>sum\<close> overflows, the integral
  branch of \<^verbatim>\<open>variance\<close> returns the same result as the floating branch applied to the
  same values converted to \<^verbatim>\<open>double\<close>.  For a wider type (\<^verbatim>\<open>long long\<close>) the two agree
  when the integer sum does not overflow and every element and every partial sum converts to
  \<^verbatim>\<open>double\<close> without rounding, as they do when the absolute values sum to less than
  \<open>2 ^ 53\<close>.
\<close>

theorem variance_branches_agree:
  fixes container :: "'a::len word list"
  shows "(LENGTH('a) \<le> 53 \<and> no_overflow sg container
        \<longrightarrow> variance_integral sg container
            = variance_floating (map (\<lambda>x. d_of_int (ival sg x)) container))
      \<and> (ival sg (sum_cn container) = (\<Sum>x\<leftarrow>container. ival sg x)
          \<and> exact_sums 0 (map (ival sg) container)
        \<longrightarrow> variance_integral sg container
            = variance_floating (map (\<lambda>x. d_of_int (ival sg x)) container))
      \<and> ((\<Sum>x\<leftarrow>container. \<bar>ival sg x\<bar>) < 2 ^ 53
        \<longrightarrow> exact_sums 0 (map (ival sg) container))"
proof -
  have "exact_sums 0 (map (ival sg) container)"
    if "(\<Sum>x\<leftarrow>container. \<bar>ival sg x\<bar>) < 2 ^ 53"
    using that by (intro exact_sums_small) (simp add: comp_def)
  then show ?thesis
    using branches_agree_narrow [of sg container] branches_agree_when_exact [of sg container]
    by blast
qed

theorem variance_branches_agree_witness:
  "no_overflow Signed [1, 2, 3, 4 :: 32 word]
   \<and> exact_sums 0 (map (ival Signed) [1, 2, 3, 4 :: 32 word])
   \<and> variance_integral Signed [1, 2, 3, 4 :: 32 word]
     = variance_floating [d_of_int 1, d_of_int 2, d_of_int 3, d_of_int 4]"
  using variance_branches_agree [of Signed "[1, 2, 3, 4 :: 32 word]"]
  by (simp add: no_overflow_def sum_cn_def representable_def d_of_int_exact)


section \<open>The variance is never negative\<close>

lemma not_negative_iff: "\<not> dgt (Fin 0) d \<longleftrightarrow> d = NaN \<or> at_least 0 d"
  by (cases d) (simp_all add: not_less)

lemma dmul_self_not_negative: "\<not> dgt (Fin 0) (dmul d d)"
proof (cases d)
  case (Fin r)
  have "at_least 0 (rnd (r * r))" by (rule rnd_at_least_0) simp
  with Fin show ?thesis by (simp add: not_negative_iff)
qed simp_all

lemma dadd_not_negative:
  assumes "\<not> dgt (Fin 0) a" "\<not> dgt (Fin 0) b"
  shows "\<not> dgt (Fin 0) (dadd a b)"
proof (cases a)
  case a: (Fin r)
  show ?thesis
  proof (cases b)
    case b: (Fin s)
    have "at_least 0 (rnd (r + s))"
      using assms a b by (intro rnd_at_least_0) simp
    with a b show ?thesis by (simp add: not_negative_iff)
  qed (use assms a in simp_all)
next
  case PInf
  with assms show ?thesis by (cases b) simp_all
next
  case NInf
  with assms show ?thesis by simp
next
  case NaN
  then show ?thesis by simp
qed

lemma d_of_nat_at_least_0: "at_least 0 (d_of_nat n)"
  unfolding d_of_nat_def by (rule rnd_at_least_0) simp

lemma ddiv_count_not_negative:
  assumes "\<not> dgt (Fin 0) a"
  shows "\<not> dgt (Fin 0) (ddiv a (d_of_nat n))"
proof (cases "d_of_nat n")
  case n: (Fin s)
  with d_of_nat_at_least_0 [of n] have s: "0 \<le> s" by simp
  show ?thesis
  proof (cases a)
    case a: (Fin r)
    with assms have r: "0 \<le> r" by simp
    have "at_least 0 (rnd (r / s))"
      using r s by (intro rnd_at_least_0) simp
    with a n r show ?thesis by (simp add: not_negative_iff)
  qed (use assms n s in simp_all)
next
  case PInf
  with assms show ?thesis by (cases a) simp_all
next
  case NInf
  with d_of_nat_at_least_0 [of n] show ?thesis by simp
next
  case NaN
  with d_of_nat_at_least_0 [of n] show ?thesis by simp
qed

lemma sqdev_loop_not_negative:
  assumes "\<not> dgt (Fin 0) acc"
  shows "\<not> dgt (Fin 0) (sqdev_loop cast mu acc xs)"
  using assms
proof (induction xs arbitrary: acc)
  case Nil
  then show ?case by simp
next
  case (Cons x xs)
  have "\<not> dgt (Fin 0) (dadd acc (dmul (dsub (cast x) mu) (dsub (cast x) mu)))"
    using Cons.prems dmul_self_not_negative by (rule dadd_not_negative)
  then show ?case
    using Cons.IH by (simp add: Let_def double_ops)
qed

lemma variance_floating_not_negative: "\<not> dgt 0 (variance_floating values)"
  unfolding variance_floating_def Let_def zero_double_def
  by (intro ddiv_count_not_negative sqdev_loop_not_negative) simp

lemma variance_integral_not_negative: "\<not> dgt 0 (variance_integral sg container)"
  unfolding variance_integral_def Let_def zero_double_def
  by (intro ddiv_count_not_negative sqdev_loop_not_negative) simp


section \<open>Bounds through the squared-deviation loop\<close>

lemma rnd_not_NaN [simp]: "rnd x \<noteq> NaN"
  by (simp add: rnd_def Let_def del: power_numeral)

lemma dsub_Fin_rnd_not_NaN [simp]: "dsub (Fin v) (rnd q) \<noteq> NaN"
  by (cases "rnd q") simp_all

lemma dmul_self_at_least_0:
  assumes "d \<noteq> NaN"
  shows "at_least 0 (dmul d d)"
proof (cases d)
  case (Fin r)
  have "at_least 0 (rnd (r * r))" by (rule rnd_at_least_0) simp
  with Fin show ?thesis by simp
qed (use assms in simp_all)

lemma dmul_self_lower:
  assumes "mag_at_least (2 powi k) d" and "- 537 \<le> k"
  shows "at_least (2 powi (2 * k)) (dmul d d)"
proof (cases d)
  case (Fin r)
  with assms(1) have r: "2 powi k \<le> \<bar>r\<bar>" by simp
  have "(2::rat) powi (2 * k) = 2 powi k * 2 powi k"
    using two_powi_add [of k k] by simp
  also have "\<dots> \<le> \<bar>r\<bar> * \<bar>r\<bar>"
    using r by (intro mult_mono) simp_all
  also have "\<dots> = r * r" by simp
  finally have "2 powi (2 * k) \<le> r * r" .
  then have "at_least (2 powi (2 * k)) (rnd (r * r))"
    using assms(2) by (intro rnd_at_least) simp_all
  with Fin show ?thesis by simp
qed (use assms in simp_all)

lemma dadd_at_least_0:
  assumes "at_least 0 a" "at_least 0 b"
  shows "at_least 0 (dadd a b)"
proof (cases a)
  case a: (Fin r)
  show ?thesis
  proof (cases b)
    case b: (Fin s)
    have "at_least 0 (rnd (r + s))"
      using assms a b by (intro rnd_at_least_0) simp
    with a b show ?thesis by simp
  qed (use assms a in simp_all)
next
  case PInf
  with assms show ?thesis by (cases b) simp_all
qed (use assms in simp_all)

lemma dadd_lower_left:
  assumes "at_least (2 powi k) a" "at_least 0 b" "- 1074 \<le> k"
  shows "at_least (2 powi k) (dadd a b)"
proof (cases a)
  case a: (Fin r)
  show ?thesis
  proof (cases b)
    case b: (Fin s)
    have "at_least (2 powi k) (rnd (r + s))"
      using assms a b by (intro rnd_at_least) simp_all
    with a b show ?thesis by simp
  qed (use assms a in simp_all)
next
  case PInf
  with assms show ?thesis by (cases b) simp_all
qed (use assms in simp_all)

lemma dadd_lower_right:
  assumes "at_least 0 a" "at_least (2 powi k) b" "- 1074 \<le> k"
  shows "at_least (2 powi k) (dadd a b)"
proof (cases a)
  case a: (Fin r)
  show ?thesis
  proof (cases b)
    case b: (Fin s)
    have "at_least (2 powi k) (rnd (r + s))"
      using assms a b by (intro rnd_at_least) simp_all
    with a b show ?thesis by simp
  qed (use assms a in simp_all)
next
  case PInf
  with assms show ?thesis by (cases b) simp_all
qed (use assms in simp_all)

lemma sqdev_loop_at_least_0:
  assumes "\<forall>x \<in> set xs. dsub (cast x) mu \<noteq> NaN" "at_least 0 acc"
  shows "at_least 0 (sqdev_loop cast mu acc xs)"
  using assms
proof (induction xs arbitrary: acc)
  case Nil
  then show ?case by simp
next
  case (Cons x xs)
  have "at_least 0 (dmul (dsub (cast x) mu) (dsub (cast x) mu))"
    using Cons.prems(1) by (intro dmul_self_at_least_0) simp
  with Cons.prems(2) have "at_least 0 (dadd acc (dmul (dsub (cast x) mu) (dsub (cast x) mu)))"
    by (rule dadd_at_least_0)
  with Cons.IH Cons.prems(1) show ?case
    by (simp add: Let_def double_ops)
qed

lemma sqdev_loop_keeps_lower:
  assumes "\<forall>x \<in> set xs. dsub (cast x) mu \<noteq> NaN" "at_least (2 powi k) acc" "- 1074 \<le> k"
  shows "at_least (2 powi k) (sqdev_loop cast mu acc xs)"
  using assms(1,2)
proof (induction xs arbitrary: acc)
  case Nil
  then show ?case by simp
next
  case (Cons x xs)
  have "at_least 0 (dmul (dsub (cast x) mu) (dsub (cast x) mu))"
    using Cons.prems(1) by (intro dmul_self_at_least_0) simp
  with Cons.prems(2)
  have "at_least (2 powi k) (dadd acc (dmul (dsub (cast x) mu) (dsub (cast x) mu)))"
    using assms(3) by (intro dadd_lower_left)
  with Cons.IH Cons.prems(1) show ?case
    by (simp add: Let_def double_ops)
qed

lemma sqdev_loop_gains_lower:
  assumes "\<forall>x \<in> set xs. dsub (cast x) mu \<noteq> NaN" "at_least 0 acc"
    and "y \<in> set xs" "mag_at_least (2 powi k) (dsub (cast y) mu)" "- 537 \<le> k"
  shows "at_least (2 powi (2 * k)) (sqdev_loop cast mu acc xs)"
  using assms(1,2,3)
proof (induction xs arbitrary: acc)
  case Nil
  then show ?case by simp
next
  case (Cons x xs)
  let ?sq = "dmul (dsub (cast x) mu) (dsub (cast x) mu)"
  have sq0: "at_least 0 ?sq"
    using Cons.prems(1) by (intro dmul_self_at_least_0) simp
  have rest: "\<forall>x \<in> set xs. dsub (cast x) mu \<noteq> NaN" using Cons.prems(1) by simp
  have k2: "- 1074 \<le> 2 * k" using assms(5) by simp
  show ?case
  proof (cases "y = x")
    case True
    have "at_least (2 powi (2 * k)) ?sq"
      using assms(4,5) True by (intro dmul_self_lower) simp_all
    with Cons.prems(2) have "at_least (2 powi (2 * k)) (dadd acc ?sq)"
      using k2 by (intro dadd_lower_right)
    from sqdev_loop_keeps_lower [OF rest this k2] show ?thesis
      by (simp add: Let_def double_ops)
  next
    case False
    with Cons.prems(3) have y: "y \<in> set xs" by simp
    from Cons.prems(2) sq0 have "at_least 0 (dadd acc ?sq)" by (rule dadd_at_least_0)
    from Cons.IH [OF rest this y] show ?thesis
      by (simp add: Let_def double_ops)
  qed
qed

lemma sqdev_loop_zero:
  assumes "\<forall>x \<in> set xs. cast x = Fin m"
  shows "sqdev_loop cast (Fin m) (Fin 0) xs = Fin 0"
  using assms by (induction xs) (simp_all add: Let_def double_ops)

lemma ddiv_by_count_at_least_0:
  assumes "at_least 0 acc" "0 < r"
  shows "at_least 0 (ddiv acc (Fin r))"
proof (cases acc)
  case (Fin a)
  with assms have "0 \<le> a / r" by simp
  then have "at_least 0 (rnd (a / r))" by (rule rnd_at_least_0)
  with Fin assms(2) show ?thesis by simp
qed (use assms in simp_all)

lemma ddiv_by_count_lower:
  assumes "at_least (2 powi k) acc" "1 \<le> r" "r \<le> 2 powi 64" "- 1010 \<le> k"
  shows "at_least (2 powi (k - 64)) (ddiv acc (Fin r))"
proof (cases acc)
  case (Fin a)
  with assms(1) have a: "2 powi k \<le> a" by simp
  have rpos: "0 < r" using assms(2) by simp
  have "(2::rat) powi (k - 64) = 2 powi k / 2 powi 64" by (rule two_powi_diff)
  also have "\<dots> \<le> a / 2 powi 64" using a by (simp add: divide_right_mono)
  also have "\<dots> \<le> a / r"
  proof -
    have "0 \<le> a" using a two_powi_pos [of k] by linarith
    then show ?thesis using rpos assms(3) by (intro divide_left_mono) simp_all
  qed
  finally have "2 powi (k - 64) \<le> a / r" .
  then have "at_least (2 powi (k - 64)) (rnd (a / r))"
    using assms(4) by (intro rnd_at_least) simp_all
  with Fin rpos show ?thesis by simp
next
  case PInf
  with assms(2) show ?thesis by simp
qed (use assms in simp_all)

lemma rnd_grid:
  assumes lo: "2 powi k \<le> \<bar>x\<bar>" and r: "rnd x = Fin r"
  shows "\<exists>z. r = of_int z * 2 powi (k - 52)"
proof -
  define e where "e = ilog2 \<bar>x\<bar>"
  define E where "E = max e (- 1022) - 52"
  define d where "d = nat (E - (k - 52))"
  have "0 < (2::rat) powi k" by simp
  with lo have "0 < \<bar>x\<bar>" by linarith
  then have x0: "x \<noteq> 0" by simp
  have "k \<le> e" unfolding e_def using lo by (rule ilog2_ge)
  then have "k - 52 \<le> E" unfolding E_def by linarith
  then have E: "E = (k - 52) + int d" by (simp add: d_def)
  have u: "ulp_of x = 2 powi E" by (simp add: ulp_of_def E_def e_def)
  have "r = of_int (rhe (x / ulp_of x)) * ulp_of x"
    using r x0 by (simp add: rnd_def Let_def split: if_splits del: power_numeral)
  also have "\<dots> = of_int (rhe (x / ulp_of x)) * (2 powi (k - 52) * 2 ^ d)"
    by (simp add: u E two_powi_add)
  also have "\<dots> = of_int (rhe (x / ulp_of x) * 2 ^ d) * 2 powi (k - 52)"
    by simp
  finally show ?thesis by blast
qed

lemma int_grid_gap:
  fixes r :: rat
  assumes r: "r = of_int z * 2 powi j" and j: "j \<le> 0" and ne: "of_int v \<noteq> r"
  shows "2 powi j \<le> \<bar>of_int v - r\<bar>"
proof -
  define d where "d = nat (- j)"
  have jd: "j = - int d" using j by (simp add: d_def)
  have one: "(2::rat) ^ d * 2 powi j = 1"
    by (simp add: jd power_int_minus)
  have "of_int v = of_int v * ((2::rat) ^ d * 2 powi j)" by (simp only: one mult_1_right)
  also have "\<dots> = of_int (v * 2 ^ d) * 2 powi j" by simp
  finally have v: "(of_int v :: rat) = of_int (v * 2 ^ d) * 2 powi j" .
  have diff: "of_int v - r = of_int (v * 2 ^ d - z) * 2 powi j"
    by (subst v) (simp add: r algebra_simps)
  have "v * 2 ^ d - z \<noteq> 0"
  proof
    assume "v * 2 ^ d - z = 0"
    with diff have "of_int v - r = 0" by simp
    with ne show False by simp
  qed
  then have "1 \<le> \<bar>v * 2 ^ d - z\<bar>" by simp
  then have "(of_int 1 :: rat) \<le> of_int \<bar>v * 2 ^ d - z\<bar>" by (simp only: of_int_le_iff)
  then have "(1::rat) \<le> \<bar>of_int (v * 2 ^ d - z)\<bar>" by simp
  then have "1 * 2 powi j \<le> \<bar>of_int (v * 2 ^ d - z) :: rat\<bar> * 2 powi j"
    by (intro mult_right_mono) simp_all
  then show ?thesis by (simp add: diff abs_mult)
qed

lemma ival_inject:
  assumes "ival sg x = ival sg y"
  shows "x = y"
proof (cases sg)
  case Signed
  with assms have "word_of_int (sint x) = (word_of_int (sint y) :: 'a word)" by simp
  then show ?thesis by simp
next
  case Unsigned
  with assms show ?thesis by (simp add: word_uint_eq_iff)
qed

lemma sum_list_all_equal:
  fixes f :: "'b \<Rightarrow> int"
  assumes "\<forall>x \<in> set xs. x = c"
  shows "(\<Sum>x\<leftarrow>xs. f x) = int (length xs) * f c"
  using assms by (induction xs) (simp_all add: algebra_simps)

lemma at_least_0_dge: "at_least 0 d \<Longrightarrow> dge d 0"
  by (cases d) (auto simp add: dge_def deq_def zero_double_def)

lemma deviation_from_mean_lower:
  assumes r: "1 \<le> r" "r \<le> 2 powi 64" and ne: "Fin (of_int v) \<noteq> rnd (of_int S / r)"
  shows "mag_at_least (2 powi (- 116)) (dsub (Fin (of_int v)) (rnd (of_int S / r)))"
proof (cases "rnd (of_int S / r)")
  case (Fin m)
  have vm: "of_int v \<noteq> m" using ne Fin by simp
  have gap: "2 powi (- 116) \<le> \<bar>of_int v - m\<bar>"
  proof (cases "S = 0")
    case True
    with Fin have "m = 0" by simp
    with vm have "v \<noteq> 0" by auto
    then have "1 \<le> \<bar>v\<bar>" by simp
    then have "(of_int 1 :: rat) \<le> of_int \<bar>v\<bar>" by (simp only: of_int_le_iff)
    then have "(1::rat) \<le> \<bar>of_int v\<bar>" by simp
    moreover have "(2::rat) powi (- 116) \<le> 2 powi 0" by (intro two_powi_mono) simp
    ultimately show ?thesis using \<open>m = 0\<close> by simp
  next
    case False
    have rpos: "0 < r" using r(1) by simp
    from False have "1 \<le> \<bar>S\<bar>" by simp
    then have "(of_int 1 :: rat) \<le> of_int \<bar>S\<bar>" by (simp only: of_int_le_iff)
    then have S1: "(1::rat) \<le> \<bar>of_int S\<bar>" by simp
    have "(2::rat) powi (- 64) = 1 / 2 powi 64" by (simp add: power_int_minus_divide)
    also have "\<dots> \<le> 1 / r" using rpos r(2) by (intro divide_left_mono) simp_all
    also have "\<dots> \<le> \<bar>of_int S\<bar> / r" using S1 rpos by (simp add: divide_right_mono)
    also have "\<dots> = \<bar>of_int S / r\<bar>" using rpos by simp
    finally have "2 powi (- 64) \<le> \<bar>(of_int S / r :: rat)\<bar>" .
    from rnd_grid [OF this Fin] obtain z where "m = of_int z * 2 powi (- 116)" by auto
    from int_grid_gap [OF this _ vm] show ?thesis by simp
  qed
  then have "mag_at_least (2 powi (- 116)) (rnd (of_int v - m))"
    by (rule rnd_mag_at_least) simp
  with Fin show ?thesis by simp
qed simp_all


section \<open>A variance that is a number\<close>

lemma dadd_Fin_not_NaN: "a \<noteq> NaN \<Longrightarrow> dadd a (Fin v) \<noteq> NaN"
  by (cases a) simp_all

lemma sum_loop_finite_not_NaN:
  assumes "list_all is_finite xs" "acc \<noteq> NaN"
  shows "sum_loop acc xs \<noteq> NaN"
  using assms
proof (induction xs arbitrary: acc)
  case Nil
  then show ?case by simp
next
  case (Cons x xs)
  from Cons.prems(1) obtain v where x: "x = Fin v" by (cases x) simp_all
  have "dadd acc (Fin v) \<noteq> NaN" using Cons.prems(2) by (rule dadd_Fin_not_NaN)
  with Cons.IH Cons.prems(1) show ?case by (simp add: x double_ops)
qed

lemma ddiv_by_count_not_NaN: "s \<noteq> NaN \<Longrightarrow> 0 < r \<Longrightarrow> ddiv s (Fin r) \<noteq> NaN"
  by (cases s) simp_all

lemma dsub_Fin_not_NaN: "m \<noteq> NaN \<Longrightarrow> dsub (Fin v) m \<noteq> NaN"
  by (cases m) simp_all

lemma variance_floating_finite_ge_0:
  assumes ne: "values \<noteq> []" and len: "length values < 2 ^ 64"
    and fin: "list_all is_finite values"
  shows "dge (variance_floating values) 0"
proof -
  have "0 < length values" using ne by simp
  from d_of_nat_count [OF this len] obtain r
    where dn: "d_of_nat (length values) = Fin r" and r: "1 \<le> r" by auto
  have rpos: "0 < r" using r by simp
  define mu where "mu = ddiv (sum_loop 0 values) (Fin r)"
  have "sum_loop 0 values \<noteq> NaN"
    using fin by (rule sum_loop_finite_not_NaN) (simp add: zero_double_def)
  then have mu: "mu \<noteq> NaN" unfolding mu_def using rpos by (rule ddiv_by_count_not_NaN)
  have nonan: "\<forall>x \<in> set values. dsub ((\<lambda>x. x) x) mu \<noteq> NaN"
  proof
    fix x assume "x \<in> set values"
    with fin have "is_finite x" by (simp add: list_all_iff)
    then obtain v where "x = Fin v" by (cases x) simp_all
    with mu show "dsub ((\<lambda>x. x) x) mu \<noteq> NaN" by (simp add: dsub_Fin_not_NaN)
  qed
  have "at_least 0 (sqdev_loop (\<lambda>x. x) mu (Fin 0) values)"
    using nonan by (rule sqdev_loop_at_least_0) simp
  then have "at_least 0 (ddiv (sqdev_loop (\<lambda>x. x) mu (Fin 0) values) (Fin r))"
    using rpos by (rule ddiv_by_count_at_least_0)
  then have "at_least 0 (variance_floating values)"
    by (simp add: variance_floating_def dn mu_def zero_double_def)
  then show ?thesis by (rule at_least_0_dge)
qed

lemma variance_integral_ge_0:
  fixes container :: "'a::len word list"
  assumes ne: "container \<noteq> []" and len: "length container < 2 ^ 64"
    and width: "LENGTH('a) \<le> 1023"
  shows "dge (variance_integral sg container) 0"
proof -
  have "0 < length container" using ne by simp
  from d_of_nat_count [OF this len] obtain r
    where dn: "d_of_nat (length container) = Fin r" and r: "1 \<le> r" by auto
  have rpos: "0 < r" using r by simp
  have "(2::int) ^ LENGTH('a) \<le> 2 ^ 1023"
    using width by (intro power_increasing) simp_all
  then have small: "\<bar>ival sg x\<bar> < 2 ^ 1023" for x :: "'a word"
    using abs_ival_less [of sg x] by linarith
  from d_of_int_finite [OF small [of "sum_cn container"]] obtain s
    where s: "d_of_int (ival sg (sum_cn container)) = Fin s" by blast
  define cast where "cast = (\<lambda>x :: 'a word. d_of_int (ival sg x))"
  define mu where "mu = rnd (s / r)"
  have nonan: "\<forall>x \<in> set container. dsub (cast x) mu \<noteq> NaN"
  proof
    fix x :: "'a word"
    from d_of_int_finite [OF small [of x]] obtain v where "d_of_int (ival sg x) = Fin v" by blast
    then show "dsub (cast x) mu \<noteq> NaN" by (simp add: cast_def mu_def)
  qed
  have "at_least 0 (sqdev_loop cast mu (Fin 0) container)"
    using nonan by (rule sqdev_loop_at_least_0) simp
  then have "at_least 0 (ddiv (sqdev_loop cast mu (Fin 0) container) (Fin r))"
    using rpos by (rule ddiv_by_count_at_least_0)
  then have "at_least 0 (variance_integral sg container)"
    using rpos by (simp add: variance_integral_def dn s mu_def cast_def zero_double_def)
  then show ?thesis by (rule at_least_0_dge)
qed


section \<open>A variance of zero\<close>

lemma variance_integral_zero:
  fixes container :: "'a::len word list"
  assumes ne: "container \<noteq> []" and len: "length container < 2 ^ 64"
    and elems: "\<forall>x \<in> set container. \<bar>ival sg x\<bar> < 2 ^ 53"
    and sumb: "\<bar>ival sg (sum_cn container)\<bar> < 2 ^ 53"
  shows "(deq (variance_integral sg container) 0 \<longrightarrow> (\<forall>x \<in> set container. x = hd container))
    \<and> (ival sg (sum_cn container) = (\<Sum>x\<leftarrow>container. ival sg x)
        \<and> (\<forall>x \<in> set container. x = hd container)
      \<longrightarrow> deq (variance_integral sg container) 0)"
proof -
  define n where "n = length container"
  define S where "S = ival sg (sum_cn container)"
  have npos: "0 < n" using ne by (simp add: n_def)
  have nlt: "n < 2 ^ 64" using len by (simp add: n_def)
  from d_of_nat_count [OF npos nlt] obtain r
    where dn: "d_of_nat n = Fin r" and r: "1 \<le> r" "r \<le> 2 powi 64" by auto
  have rpos: "0 < r" using r(1) by simp
  define mu where "mu = rnd (of_int S / r)"
  define cast where "cast = (\<lambda>x :: 'a word. d_of_int (ival sg x))"
  define acc where "acc = sqdev_loop cast mu (Fin 0) container"
  have dS: "d_of_int S = Fin (of_int S)"
    using sumb unfolding S_def by (rule d_of_int_exact)
  have mu: "ddiv (d_of_int (ival sg (sum_cn container))) (Fin r) = mu"
    using rpos by (simp add: S_def [symmetric] dS mu_def)
  have cast: "cast x = Fin (of_int (ival sg x))" if "x \<in> set container" for x
  proof -
    from elems that have "\<bar>ival sg x\<bar> < 2 ^ 53" by simp
    then show ?thesis unfolding cast_def by (rule d_of_int_exact)
  qed
  have nonan: "\<forall>x \<in> set container. dsub (cast x) mu \<noteq> NaN"
    using cast by (simp add: mu_def)
  have V: "variance_integral sg container = ddiv acc (Fin r)"
    by (simp add: variance_integral_def n_def [symmetric] dn mu acc_def cast_def
        zero_double_def)
  have eq_imp: "deq (variance_integral sg container) 0"
    if nov: "ival sg (sum_cn container) = (\<Sum>x\<leftarrow>container. ival sg x)"
      and all: "\<forall>x \<in> set container. x = hd container"
  proof -
    define c where "c = hd container"
    have cin: "c \<in> set container" using ne by (simp add: c_def)
    have Snc: "S = int n * ival sg c"
      unfolding S_def nov n_def using all by (intro sum_list_all_equal) (simp add: c_def)
    have quot: "(of_int S / r :: rat) = of_int (ival sg c)"
    proof (cases "n < 2 ^ 53")
      case True
      then have "d_of_nat n = Fin (of_nat n)" by (rule d_of_nat_exact)
      with dn have "r = of_nat n" by simp
      then show ?thesis using npos by (simp add: Snc)
    next
      case False
      have "ival sg c = 0"
      proof (rule ccontr)
        assume "ival sg c \<noteq> 0"
        then have "1 \<le> \<bar>ival sg c\<bar>" by simp
        then have "int n * 1 \<le> int n * \<bar>ival sg c\<bar>" by (intro mult_left_mono) simp_all
        then have "int n \<le> \<bar>S\<bar>" by (simp add: Snc abs_mult)
        moreover have "(2::int) ^ 53 \<le> int n" using False by simp
        ultimately show False using sumb by (simp add: S_def)
      qed
      then show ?thesis by (simp add: Snc)
    qed
    have "rnd (of_int (ival sg c)) = Fin (of_int (ival sg c))"
      using cast [OF cin] by (simp add: cast_def d_of_int_def)
    with quot have mu_c: "mu = Fin (of_int (ival sg c))" by (simp add: mu_def)
    have "\<forall>x \<in> set container. cast x = Fin (of_int (ival sg c))"
      using all cast by (simp add: c_def)
    then have "acc = Fin 0" unfolding acc_def mu_c by (rule sqdev_loop_zero)
    then have "variance_integral sg container = Fin 0"
      using rpos by (simp add: V)
    then show ?thesis by (simp add: deq_def zero_double_def)
  qed
  have imp_eq: "\<forall>x \<in> set container. x = hd container"
    if z: "deq (variance_integral sg container) 0"
  proof -
    have same: "cast y = mu" if y: "y \<in> set container" for y
    proof (rule ccontr)
      assume "cast y \<noteq> mu"
      then have "Fin (of_int (ival sg y)) \<noteq> rnd (of_int S / r)"
        using cast [OF y] by (simp add: mu_def)
      from deviation_from_mean_lower [OF r this]
      have "mag_at_least (2 powi (- 116)) (dsub (cast y) mu)"
        using cast [OF y] by (simp add: mu_def)
      from sqdev_loop_gains_lower [OF nonan _ y this]
      have "at_least (2 powi (2 * (- 116))) acc" by (simp add: acc_def)
      then have "at_least (2 powi (- 232)) acc" by simp
      from ddiv_by_count_lower [OF this r]
      have low: "at_least (2 powi (- 232 - 64)) (variance_integral sg container)"
        by (simp add: V)
      have "(0::rat) < 2 powi (- 232 - 64)" by (rule two_powi_pos)
      with low have "variance_integral sg container \<noteq> Fin 0"
        by (cases "variance_integral sg container") auto
      with z show False by (simp add: deq_def zero_double_def)
    qed
    show ?thesis
    proof
      fix x assume x: "x \<in> set container"
      have h: "hd container \<in> set container" using ne by simp
      from same [OF x] same [OF h] cast [OF x] cast [OF h]
      have "Fin (of_int (ival sg x)) = Fin (of_int (ival sg (hd container)))" by simp
      then have "(of_int (ival sg x) :: rat) = of_int (ival sg (hd container))" by simp
      then have "ival sg x = ival sg (hd container)" by (simp only: of_int_eq_iff)
      then show "x = hd container" by (rule ival_inject)
    qed
  qed
  from eq_imp imp_eq show ?thesis by blast
qed

lemma variance_integral_zero_narrow:
  fixes container :: "'a::len word list"
  assumes "container \<noteq> []" "length container < 2 ^ 64" "LENGTH('a) \<le> 53"
  shows "(deq (variance_integral sg container) 0 \<longrightarrow> (\<forall>x \<in> set container. x = hd container))
    \<and> (ival sg (sum_cn container) = (\<Sum>x\<leftarrow>container. ival sg x)
        \<and> (\<forall>x \<in> set container. x = hd container)
      \<longrightarrow> deq (variance_integral sg container) 0)"
  using assms(1,2)
proof (rule variance_integral_zero)
  show "\<forall>x \<in> set container. \<bar>ival sg x\<bar> < 2 ^ 53"
    using assms(3) by (intro ballI abs_ival_53)
  show "\<bar>ival sg (sum_cn container)\<bar> < 2 ^ 53"
    using assms(3) by (rule abs_ival_53)
qed


section \<open>Sign and zero of the variance\<close>




end
